theory Spec2Isabelle
  imports Main "HOL-Library.Multiset"
begin

section \<open>KnightTour\_omp.c: data model\<close>

text \<open>
  The program fixes its parameters with preprocessor macros. They are collected in a
  record so that the functions below can be read at any board size. \<open>start_x\<close> and
  \<open>start_y\<close> are the two literals assigned to \<open>track[0][0]\<close> and \<open>track[0][1]\<close>
  (both 5 in the source, written over the commented-out \<open>rand() % LX\<close>).
  \<open>MAX_TRY\<close> is the floating constant \<open>2E8\<close>. The field holds the number written in
  the macro; the program works with the double nearest to it, see \<open>as_double\<close> below.
\<close>

record config =
  LX :: nat
  LY :: nat
  MAX_START :: nat
  MAX_PATTERN :: nat
  MAX_TRY :: nat
  RANDOM_MOVE_PATTERN :: nat
  start_x :: int
  start_y :: int

definition MAX_MOVE_PATTERN :: nat where
  "MAX_MOVE_PATTERN = 8"

definition source_config :: config where
  "source_config = \<lparr>LX = 6, LY = 6, MAX_START = 5, MAX_PATTERN = 4, MAX_TRY = 200000000,
     RANDOM_MOVE_PATTERN = 10, start_x = 5, start_y = 5\<rparr>"

text \<open>
  \<open>Board_t\<close> is \<open>int[LX][LY]\<close>: \<open>board ! x ! y\<close>. \<open>Track_t\<close> is \<open>int[LX*LY][3]\<close>: one row
  per step, holding the cell (\<open>[0]\<close>, \<open>[1]\<close>) and the index of the move pattern that is
  tried next from it (\<open>[2]\<close>). \<open>Move_t\<close> is \<open>int[MAX_MOVE_PATTERN][2]\<close>.
\<close>

type_synonym Board_t = "int list list"

record entry =
  pos_x :: int
  pos_y :: int
  pattern :: int

type_synonym Track_t = "entry list"

type_synonym Move_t = "(int \<times> int) list"

text \<open>
  C does not check array indices. An access outside the array is undefined behaviour;
  the model stops with \<open>OutOfBounds\<close> instead of continuing with an unspecified value.
\<close>

datatype error = OutOfBounds

definition in_range :: "int \<Rightarrow> nat \<Rightarrow> bool" where
  "in_range i n \<longleftrightarrow> 0 \<le> i \<and> i < int n"

definition board_get :: "Board_t \<Rightarrow> int \<Rightarrow> int \<Rightarrow> int" where
  "board_get board x y = board ! nat x ! nat y"

definition board_set :: "Board_t \<Rightarrow> int \<Rightarrow> int \<Rightarrow> int \<Rightarrow> Board_t" where
  "board_set board x y v = board[nat x := (board ! nat x)[nat y := v]]"

definition board_dims :: "config \<Rightarrow> Board_t \<Rightarrow> bool" where
  "board_dims cfg board \<longleftrightarrow>
     length board = LX cfg \<and> list_all (\<lambda>col. length col = LY cfg) board"

section \<open>Doubles\<close>

text \<open>
  \<open>MAX_TRY\<close> is used in two comparisons, \<open>MAX_TRY >= pow(MAX_MOVE_PATTERN, LX*LY)\<close> and
  \<open>num_try<MAX_TRY\<close>, and both are comparisons of doubles: \<open>pow\<close> returns a double, and the
  \<open>unsigned long\<close> counter is converted. Only doubles whose value is a natural number occur.
  Such a double is represented by its value, and \<open>+infinity\<close> by \<open>2^1024\<close>, the least power
  of two above all finite doubles.

  \<open>as_double\<close> is the double nearest to a natural number, ties going to the even
  significand of 53 bits, as a number written in the macro is read and as an integer is
  converted; a number that rounds to \<open>2^1024\<close> or more becomes \<open>+infinity\<close>.
\<close>

fun bitlen :: "nat \<Rightarrow> nat" where
  "bitlen n = (if n = 0 then 0 else bitlen (n div 2) + 1)"

declare bitlen.simps [simp del]

definition as_double :: "nat \<Rightarrow> nat" where
  "as_double n =
     (if n < 2 ^ 53 then n
      else
        let e = bitlen n - 53;
            q = n div 2 ^ e;
            r = n mod 2 ^ e
        in min (2 ^ 1024)
             (if 2 ^ e < 2 * r \<or> (2 * r = 2 ^ e \<and> odd q) then (q + 1) * 2 ^ e else q * 2 ^ e))"

text \<open>
  \<open>pow(MAX_MOVE_PATTERN, n)\<close>: a power of two, which \<open>pow\<close> returns exactly while it is
  finite, that is up to \<open>2^1023\<close>, and \<open>+infinity\<close> beyond.
\<close>

definition pow_8 :: "nat \<Rightarrow> nat" where
  "pow_8 n = (if 3 * n \<le> 1023 then MAX_MOVE_PATTERN ^ n else 2 ^ 1024)"

section \<open>The three transitions\<close>

text \<open>
  \<open>TryMove\<close> only reads its arguments (they are pointers to const in the source) and
  returns a C truth value.
\<close>

definition TryMove :: "config \<Rightarrow> int \<Rightarrow> int \<Rightarrow> Track_t \<Rightarrow> Board_t \<Rightarrow> Move_t \<Rightarrow> error + int" where
  "TryMove cfg stp k track board move =
     (if \<not> in_range stp (length track) \<or> \<not> in_range k (length move) then Inl OutOfBounds
      else
        let x = pos_x (track ! nat stp) + fst (move ! nat k);
            y = pos_y (track ! nat stp) + snd (move ! nat k)
        in if 0 \<le> x \<and> x < int (LX cfg) \<and> 0 \<le> y \<and> y < int (LY cfg)
           then Inr (if board_get board x y = 0 then 1 else 0)
           else Inr 0)"

text \<open>
  \<open>AcceptMove\<close> and \<open>BackTrace\<close> return the address of a \<open>[2]\<close> field of the track; the
  model returns the row that address lies in.
\<close>

definition AcceptMove ::
  "config \<Rightarrow> int \<Rightarrow> int \<Rightarrow> Track_t \<Rightarrow> Board_t \<Rightarrow> Move_t \<Rightarrow> error + (Track_t \<times> Board_t \<times> int)" where
  "AcceptMove cfg stp k track board move =
     (if \<not> in_range stp (length track) \<or> \<not> in_range (stp - 1) (length track)
         \<or> \<not> in_range k (length move) then Inl OutOfBounds
      else
        let x = pos_x (track ! nat (stp - 1)) + fst (move ! nat k);
            y = pos_y (track ! nat (stp - 1)) + snd (move ! nat k)
        in if \<not> in_range x (LX cfg) \<or> \<not> in_range y (LY cfg) then Inl OutOfBounds
           else Inr (track[nat stp := \<lparr>pos_x = x, pos_y = y, pattern = 0\<rparr>],
                     board_set board x y (stp + 1), stp))"

definition BackTrace ::
  "config \<Rightarrow> int \<Rightarrow> Track_t \<Rightarrow> Board_t \<Rightarrow> error + (Track_t \<times> Board_t \<times> int)" where
  "BackTrace cfg stp track board =
     (if \<not> in_range stp (length track) \<or> \<not> in_range (stp - 1) (length track)
      then Inl OutOfBounds
      else
        let x = pos_x (track ! nat stp);
            y = pos_y (track ! nat stp)
        in if \<not> in_range x (LX cfg) \<or> \<not> in_range y (LY cfg) then Inl OutOfBounds
           else Inr (track[nat (stp - 1) :=
                       (track ! nat (stp - 1))\<lparr>pattern := pattern (track ! nat (stp - 1)) + 1\<rparr>],
                     board_set board x y 0, stp - 1))"

definition IsClosedTour :: "int \<Rightarrow> int \<Rightarrow> int \<Rightarrow> int \<Rightarrow> int" where
  "IsClosedTour x y a b =
     (if (\<bar>x - a\<bar> = 1 \<and> \<bar>y - b\<bar> = 2) \<or> (\<bar>x - a\<bar> = 2 \<and> \<bar>y - b\<bar> = 1) then 1 else 0)"

text \<open>The initializer of \<open>move\<close> in \<open>main\<close>.\<close>

definition move_init :: Move_t where
  "move_init = [(-2, -1), (-2, 1), (-1, -2), (-1, 2), (1, -2), (1, 2), (2, -1), (2, 1)]"

section \<open>Shuffling the move set\<close>

text \<open>
  \<open>rand()\<close> is modelled by the sequence \<open>rnd\<close> of the values it returns (they are not
  negative) and the number \<open>p\<close> of calls made so far. Each of the
  \<open>RANDOM_MOVE_PATTERN\<close> rounds draws \<open>a\<close>, then \<open>b\<close>, and exchanges rows \<open>a\<close> and \<open>b\<close>.
\<close>

fun shuffle_rounds :: "nat \<Rightarrow> (nat \<Rightarrow> nat) \<Rightarrow> nat \<Rightarrow> Move_t \<Rightarrow> Move_t \<times> nat" where
  "shuffle_rounds 0 rnd p move = (move, p)"
| "shuffle_rounds (Suc n) rnd p move =
     (let a = rnd p mod MAX_MOVE_PATTERN;
          b = rnd (p + 1) mod MAX_MOVE_PATTERN;
          save = move ! a;
          move1 = move[a := move ! b];
          move2 = move1[b := save]
      in shuffle_rounds n rnd (p + 2) move2)"

definition ShuffleMovePattern :: "config \<Rightarrow> (nat \<Rightarrow> nat) \<Rightarrow> nat \<Rightarrow> Move_t \<Rightarrow> Move_t \<times> nat" where
  "ShuffleMovePattern cfg rnd p move = shuffle_rounds (RANDOM_MOVE_PATTERN cfg) rnd p move"

text \<open>
  The same rounds on the indices instead of the rows: \<open>exchange a b\<close> maps \<open>a\<close> to \<open>b\<close>,
  \<open>b\<close> to \<open>a\<close> and every other index to itself, and \<open>origin n rnd p i\<close> is the image of
  \<open>i\<close> under the exchanges drawn in \<open>n\<close> rounds, the last round applied first.
\<close>

definition exchange :: "nat \<Rightarrow> nat \<Rightarrow> nat \<Rightarrow> nat" where
  "exchange a b i = (if i = a then b else if i = b then a else i)"

fun origin :: "nat \<Rightarrow> (nat \<Rightarrow> nat) \<Rightarrow> nat \<Rightarrow> nat \<Rightarrow> nat" where
  "origin 0 rnd p i = i"
| "origin (Suc n) rnd p i =
     exchange (rnd p mod MAX_MOVE_PATTERN) (rnd (p + 1) mod MAX_MOVE_PATTERN)
       (origin n rnd (p + 2) i)"

definition rand_zero :: "nat \<Rightarrow> nat" where
  "rand_zero n = 0"

definition rand_count :: "nat \<Rightarrow> nat" where
  "rand_count n = n"

section \<open>Printing the board\<close>

text \<open>The conversion \<open>%d\<close>.\<close>

fun digits :: "nat \<Rightarrow> string" where
  "digits n = (if n < 10 then [''0123456789'' ! n]
     else digits (n div 10) @ [''0123456789'' ! (n mod 10)])"

definition print_d :: "int \<Rightarrow> string" where
  "print_d i = (if i < 0 then CHR ''-'' # digits (nat (- i)) else digits (nat i))"

definition ResetBoard :: "config \<Rightarrow> Board_t" where
  "ResetBoard cfg = replicate (LX cfg) (replicate (LY cfg) 0)"

text \<open>
  \<open>fPrintBoard\<close> appends to the file: for \<open>j\<close> from \<open>LY - 1\<close> down to 0 the cells
  \<open>board[i][j]\<close>, \<open>i\<close> from 0 to \<open>LX - 1\<close>, each printed with \<open>"%d "\<close>, then a newline;
  after the last line one more newline. The file is represented by its contents.
\<close>

definition print_line :: "config \<Rightarrow> Board_t \<Rightarrow> nat \<Rightarrow> string" where
  "print_line cfg board j =
     concat (map (\<lambda>i. print_d (board ! i ! j) @ '' '') [0..<LX cfg]) @ [CHR 0x0A]"

definition fPrintBoard :: "config \<Rightarrow> string \<Rightarrow> Board_t \<Rightarrow> string" where
  "fPrintBoard cfg file board =
     file @ concat (map (print_line cfg board) (rev [0..<LY cfg])) @ [CHR 0x0A]"

text \<open>
  The same dump written from the words of the specification: each line holds the cell
  values of one row separated by single spaces.
\<close>

fun separated :: "string list \<Rightarrow> string" where
  "separated [] = []"
| "separated [w] = w"
| "separated (w # ws) = w @ '' '' @ separated ws"

definition spec_line :: "config \<Rightarrow> Board_t \<Rightarrow> nat \<Rightarrow> string" where
  "spec_line cfg board j =
     separated (map (\<lambda>i. print_d (board ! i ! j)) [0..<LX cfg]) @ [CHR 0x0A]"

definition spec_dump :: "config \<Rightarrow> Board_t \<Rightarrow> string" where
  "spec_dump cfg board = concat (map (spec_line cfg board) (rev [0..<LY cfg])) @ [CHR 0x0A]"

section \<open>The critical section\<close>

text \<open>
  The variables shared by all threads: the three counters, the contents of
  \<open>ClosedTour.txt\<close> behind \<open>fc\<close>, and what has been printed on standard output.
\<close>

record shared =
  num_found :: int
  num_closed :: int
  num_opened :: int
  fc :: string
  console :: string

text \<open>The block under \<open>#pragma omp critical\<close>, run when \<open>step == LX*LY-1\<close>.\<close>

definition critical_section :: "config \<Rightarrow> int \<Rightarrow> Track_t \<Rightarrow> Board_t \<Rightarrow> shared \<Rightarrow> shared" where
  "critical_section cfg thread_id track board sh =
     (let sh1 = sh\<lparr>num_found := num_found sh + 1\<rparr>
      in if IsClosedTour (pos_x (track ! (LX cfg * LY cfg - 1))) (pos_y (track ! (LX cfg * LY cfg - 1)))
              (pos_x (track ! 0)) (pos_y (track ! 0)) \<noteq> 0
         then sh1\<lparr>console := console sh1 @ ''Thread '' @ print_d thread_id @
                      '': Found a closed knight tour.'' @ [CHR 0x0A],
                   num_closed := num_closed sh1 + 1,
                   fc := fPrintBoard cfg (fc sh1) board\<rparr>
         else sh1\<lparr>console := console sh1 @ ''Thread '' @ print_d thread_id @
                      '': Found an opened knight tour.'' @ [CHR 0x0A],
                   num_opened := num_opened sh1 + 1\<rparr>)"

definition shared_init :: "string \<Rightarrow> shared" where
  "shared_init file = \<lparr>num_found = 0, num_closed = 0, num_opened = 0, fc = file, console = []\<rparr>"

text \<open>
  Critical sections exclude each other, so whatever the threads do, the shared variables
  go through a sequence of whole critical sections, each on the thread number, track and
  board of the thread that entered it.
\<close>

fun critical_sections :: "config \<Rightarrow> (int \<times> Track_t \<times> Board_t) list \<Rightarrow> shared \<Rightarrow> shared" where
  "critical_sections cfg [] sh = sh"
| "critical_sections cfg ((thread_id, track, board) # events) sh =
     critical_sections cfg events (critical_section cfg thread_id track board sh)"

section \<open>The search of one attempt\<close>

text \<open>
  The local variables of one attempt. The pointer \<open>k\<close> always holds the address of the
  \<open>[2]\<close> field of some row of \<open>track\<close>; \<open>cur_k\<close> is that row, and \<open>*k\<close> is the \<open>pattern\<close> of
  that row. \<open>num_try\<close> is an \<open>unsigned long\<close>; it counts in the naturals here, its
  wrap-around after \<open>ULONG_MAX\<close> moves is left out.
\<close>

record search =
  cur_board :: Board_t
  cur_track :: Track_t
  cur_step :: int
  cur_k :: int
  num_try :: nat

text \<open>\<open>while( *k==MAX_MOVE_PATTERN ){ k = BackTrace(step--, &track, &board); }\<close>\<close>

function cascade :: "config \<Rightarrow> search \<Rightarrow> error + search" where
  "cascade cfg s =
     (if \<not> in_range (cur_k s) (length (cur_track s)) then Inl OutOfBounds
      else if pattern (cur_track s ! nat (cur_k s)) = int MAX_MOVE_PATTERN then
        (case BackTrace cfg (cur_step s) (cur_track s) (cur_board s) of
           Inl e \<Rightarrow> Inl e
         | Inr (track1, board1, k1) \<Rightarrow>
             cascade cfg (s\<lparr>cur_step := cur_step s - 1, cur_track := track1,
                            cur_board := board1, cur_k := k1\<rparr>))
      else Inr s)"
  by pat_completeness auto
termination
  by (relation "measure (\<lambda>(cfg, s). nat (cur_step s))")
     (auto simp: BackTrace_def in_range_def Let_def split: if_splits)

text \<open>
  \<open>while( !TryMove(step, *k, &track, &board, &move) ){ ++num_try; ++*k; while(...)... }\<close>
\<close>

partial_function (option) try_loop :: "config \<Rightarrow> Move_t \<Rightarrow> search \<Rightarrow> (error + search) option" where
  "try_loop cfg move s =
     (if \<not> in_range (cur_k s) (length (cur_track s)) then Some (Inl OutOfBounds)
      else
        case TryMove cfg (cur_step s) (pattern (cur_track s ! nat (cur_k s)))
               (cur_track s) (cur_board s) move of
          Inl e \<Rightarrow> Some (Inl e)
        | Inr r \<Rightarrow>
            if r \<noteq> 0 then Some (Inr s)
            else
              (case cascade cfg
                      (s\<lparr>num_try := num_try s + 1,
                         cur_track := (cur_track s)[nat (cur_k s) :=
                           (cur_track s ! nat (cur_k s))
                             \<lparr>pattern := pattern (cur_track s ! nat (cur_k s)) + 1\<rparr>]\<rparr>) of
                 Inl e \<Rightarrow> Some (Inl e)
               | Inr s1 \<Rightarrow> try_loop cfg move s1))"

declare try_loop.simps [code]

text \<open>
  The rest of the body of \<open>while( num_try<MAX_TRY )\<close>: the move found by the loop above
  is accepted; on a full board the critical section runs and the search backtracks.
\<close>

definition accept_step ::
  "config \<Rightarrow> int \<Rightarrow> Move_t \<Rightarrow> search \<Rightarrow> shared \<Rightarrow> error + search \<times> shared" where
  "accept_step cfg thread_id move s sh =
     (if \<not> in_range (cur_k s) (length (cur_track s)) then Inl OutOfBounds
      else
        case AcceptMove cfg (cur_step s + 1) (pattern (cur_track s ! nat (cur_k s)))
               (cur_track s) (cur_board s) move of
          Inl e \<Rightarrow> Inl e
        | Inr (track1, board1, k1) \<Rightarrow>
            let s1 = s\<lparr>num_try := num_try s + 1, cur_step := cur_step s + 1,
                       cur_track := track1, cur_board := board1, cur_k := k1\<rparr>
            in if cur_step s1 = int (LX cfg * LY cfg) - 1 then
                 let sh1 = critical_section cfg thread_id track1 board1 sh
                 in case BackTrace cfg (cur_step s1) track1 board1 of
                      Inl e \<Rightarrow> Inl e
                    | Inr (track2, board2, k2) \<Rightarrow>
                        (case cascade cfg (s1\<lparr>cur_step := cur_step s1 - 1, cur_track := track2,
                                               cur_board := board2, cur_k := k2\<rparr>) of
                           Inl e \<Rightarrow> Inl e
                         | Inr s2 \<Rightarrow> Inr (s2, sh1))
               else Inr (s1, sh))"

partial_function (option) search_loop ::
  "config \<Rightarrow> int \<Rightarrow> Move_t \<Rightarrow> search \<Rightarrow> shared \<Rightarrow> (error + search \<times> shared) option" where
  "search_loop cfg thread_id move s sh =
     (if \<not> as_double (num_try s) < as_double (MAX_TRY cfg) then Some (Inr (s, sh))
      else
        Option.bind (try_loop cfg move s)
          (\<lambda>r. case r of
                  Inl e \<Rightarrow> Some (Inl e)
                | Inr s1 \<Rightarrow>
                    (case accept_step cfg thread_id move s1 sh of
                       Inl e \<Rightarrow> Some (Inl e)
                     | Inr (s2, sh2) \<Rightarrow> search_loop cfg thread_id move s2 sh2)))"

declare search_loop.simps [code]

text \<open>
  The state in which the search starts: the board reset, the start cell (row 0 of the
  track) marked 1, its pattern index 0, \<open>step = 0\<close>, \<open>k = &track[0][2]\<close>, \<open>num_try = 0\<close>.
\<close>

definition search_init :: "config \<Rightarrow> Track_t \<Rightarrow> error + search" where
  "search_init cfg track =
     (if \<not> in_range 0 (length track) \<or> \<not> in_range (pos_x (track ! 0)) (LX cfg)
         \<or> \<not> in_range (pos_y (track ! 0)) (LY cfg) then Inl OutOfBounds
      else Inr \<lparr>cur_board = board_set (ResetBoard cfg) (pos_x (track ! 0)) (pos_y (track ! 0)) 1,
                cur_track = track[0 := (track ! 0)\<lparr>pattern := 0\<rparr>],
                cur_step = 0, cur_k = 0, num_try = 0\<rparr>)"

text \<open>The body of the loop over \<open>num_pattern\<close>: one attempt.\<close>

definition attempt ::
  "config \<Rightarrow> int \<Rightarrow> (nat \<Rightarrow> nat) \<Rightarrow> nat \<Rightarrow> Move_t \<Rightarrow> Track_t \<Rightarrow> shared \<Rightarrow>
     (error + nat \<times> Move_t \<times> Track_t \<times> shared) option" where
  "attempt cfg thread_id rnd p move track sh =
     (case ShuffleMovePattern cfg rnd p move of
        (move1, p1) \<Rightarrow>
          (case search_init cfg track of
             Inl e \<Rightarrow> Some (Inl e)
           | Inr s0 \<Rightarrow>
               Option.bind (search_loop cfg thread_id move1 s0 sh)
                 (\<lambda>r. case r of
                         Inl e \<Rightarrow> Some (Inl e)
                       | Inr (s, sh1) \<Rightarrow> Some (Inr (p1, move1, cur_track s, sh1)))))"

fun pattern_loop ::
  "nat \<Rightarrow> config \<Rightarrow> int \<Rightarrow> (nat \<Rightarrow> nat) \<Rightarrow> nat \<Rightarrow> Move_t \<Rightarrow> Track_t \<Rightarrow> shared \<Rightarrow>
     (error + nat \<times> shared) option" where
  "pattern_loop 0 cfg thread_id rnd p move track sh = Some (Inr (p, sh))"
| "pattern_loop (Suc n) cfg thread_id rnd p move track sh =
     Option.bind (attempt cfg thread_id rnd p move track sh)
       (\<lambda>r. case r of
               Inl e \<Rightarrow> Some (Inl e)
             | Inr (p1, move1, track1, sh1) \<Rightarrow> pattern_loop n cfg thread_id rnd p1 move1 track1 sh1)"

section \<open>main\<close>

text \<open>
  The body of the loop over \<open>num_start\<close>. \<open>board\<close> and \<open>track\<close> are declared without
  initializer; \<open>uninit\<close> gives the rows that \<open>track\<close> happens to hold.
\<close>

definition start_body ::
  "config \<Rightarrow> int \<Rightarrow> (nat \<Rightarrow> nat) \<Rightarrow> nat \<Rightarrow> (nat \<Rightarrow> entry) \<Rightarrow> shared \<Rightarrow> (error + nat \<times> shared) option" where
  "start_body cfg thread_id rnd p uninit sh =
     (let track = map uninit [0..<LX cfg * LY cfg]
      in if \<not> in_range 0 (length track) then Some (Inl OutOfBounds)
         else pattern_loop (MAX_PATTERN cfg) cfg thread_id rnd p move_init
                (track[0 := (track ! 0)\<lparr>pos_x := start_x cfg, pos_y := start_y cfg\<rparr>]) sh)"

text \<open>
  The iterations of the \<open>parallel for\<close> run one after the other here, as they do with
  a single thread, whose number is 0.
\<close>

fun start_loop ::
  "nat \<Rightarrow> config \<Rightarrow> (nat \<Rightarrow> nat) \<Rightarrow> nat \<Rightarrow> (nat \<Rightarrow> entry) \<Rightarrow> shared \<Rightarrow> (error + nat \<times> shared) option" where
  "start_loop 0 cfg rnd p uninit sh = Some (Inr (p, sh))"
| "start_loop (Suc n) cfg rnd p uninit sh =
     Option.bind (start_body cfg 0 rnd p uninit sh)
       (\<lambda>r. case r of
               Inl e \<Rightarrow> Some (Inl e)
             | Inr (p1, sh1) \<Rightarrow> start_loop n cfg rnd p1 uninit sh1)"

text \<open>
  What a run leaves behind: standard output, the file \<open>ClosedTour.txt\<close> (\<open>None\<close> when
  it does not exist), and the value returned by \<open>main\<close>. \<open>fopen\<close> with mode \<open>"a"\<close> creates
  the file when it is missing and keeps its contents otherwise; it is taken to succeed.
\<close>

record run_result =
  out_console :: string
  out_file :: "string option"
  out_return :: int

definition config_error_message :: string where
  "config_error_message =
     ''Error:: MAX_TRY is larger than the number of all possible sets of moves. Exit.'' @ [CHR 0x0A]"

definition summary :: "shared \<Rightarrow> string" where
  "summary sh =
     [CHR 0x0A] @ ''Totally '' @ print_d (num_found sh) @ '' tours were found.'' @
     [CHR 0x0A] @ ''Totally '' @ print_d (num_opened sh) @ '' opened tours were found.'' @
     [CHR 0x0A] @ ''Totally '' @ print_d (num_closed sh) @ '' closed tours were found.'' @ [CHR 0x0A] @
     [CHR 0x0A] @ ''Note: Some may be repeated.'' @ [CHR 0x0A]"

definition run_search ::
  "config \<Rightarrow> (nat \<Rightarrow> nat) \<Rightarrow> (nat \<Rightarrow> entry) \<Rightarrow> string option \<Rightarrow> (error + run_result) option" where
  "run_search cfg rnd uninit file =
     Option.bind
       (start_loop (MAX_START cfg) cfg rnd 0 uninit
          (shared_init (case file of None \<Rightarrow> [] | Some contents \<Rightarrow> contents)))
       (\<lambda>r. case r of
               Inl e \<Rightarrow> Some (Inl e)
             | Inr (p, sh) \<Rightarrow>
                 Some (Inr \<lparr>out_console = console sh @ summary sh, out_file = Some (fc sh),
                            out_return = 0\<rparr>))"

text \<open>
  The test at the head of \<open>main\<close> compares the double \<open>MAX_TRY\<close> with the double that
  \<open>pow\<close> returns.
\<close>

definition main ::
  "config \<Rightarrow> (nat \<Rightarrow> nat) \<Rightarrow> (nat \<Rightarrow> entry) \<Rightarrow> string option \<Rightarrow> (error + run_result) option" where
  "main cfg rnd uninit file =
     (if as_double (MAX_TRY cfg) \<ge> pow_8 (LX cfg * LY cfg)
      then Some (Inr \<lparr>out_console = config_error_message, out_file = file, out_return = 0\<rparr>)
      else run_search cfg rnd uninit file)"

definition uninit_zero :: "nat \<Rightarrow> entry" where
  "uninit_zero i = \<lparr>pos_x = 0, pos_y = 0, pattern = 0\<rparr>"

section \<open>Small configurations\<close>

text \<open>
  A 2 by 4 board, searched from the corner (0, 0): the cell count is even, as the
  comment on \<open>LX\<close> and \<open>LY\<close> asks, and the budget is below \<open>8^8\<close>.
\<close>

definition small_config :: config where
  "small_config = \<lparr>LX = 2, LY = 4, MAX_START = 1, MAX_PATTERN = 1, MAX_TRY = 1000,
     RANDOM_MOVE_PATTERN = 10, start_x = 0, start_y = 0\<rparr>"

text \<open>A 3 by 4 board, searched from the corner (0, 0) with a budget of 100 moves.\<close>

definition open_config :: config where
  "open_config = \<lparr>LX = 3, LY = 4, MAX_START = 1, MAX_PATTERN = 1, MAX_TRY = 100,
     RANDOM_MOVE_PATTERN = 10, start_x = 0, start_y = 0\<rparr>"

text \<open>
  A 3 by 6 board with the budget \<open>2^54 - 1\<close>, which is below \<open>8^18 = 2^54\<close> and is not a
  double: the nearest double is \<open>2^54\<close>.
\<close>

definition rounding_config :: config where
  "rounding_config = \<lparr>LX = 3, LY = 6, MAX_START = 1, MAX_PATTERN = 1,
     MAX_TRY = 18014398509481983, RANDOM_MOVE_PATTERN = 10, start_x = 0, start_y = 0\<rparr>"

text \<open>The configuration of the source with the budget \<open>8^35\<close>.\<close>

definition budget_config :: config where
  "budget_config = source_config\<lparr>MAX_TRY := 8 ^ 35\<rparr>"

section \<open>The states of one attempt\<close>

text \<open>
  The states that the search of one attempt can be in: the state in which it starts, and
  every state that one of the three transitions leads to. A failed \<open>TryMove\<close> adds one to
  \<open>num_try\<close> and to \<open>*k\<close>; \<open>BackTrace\<close> is called with \<open>step--\<close>; \<open>AcceptMove\<close> is called
  with \<open>++step\<close> after a \<open>TryMove\<close> that succeeded for the same \<open>*k\<close>, and \<open>num_try\<close> has
  been incremented before.
\<close>

inductive reachable :: "config \<Rightarrow> Move_t \<Rightarrow> search \<Rightarrow> bool" for cfg :: config and move :: Move_t where
  start: "search_init cfg track = Inr s \<Longrightarrow> reachable cfg move s"
| try_failed:
    "reachable cfg move s \<Longrightarrow> in_range (cur_k s) (length (cur_track s)) \<Longrightarrow>
     TryMove cfg (cur_step s) (pattern (cur_track s ! nat (cur_k s))) (cur_track s) (cur_board s) move = Inr 0 \<Longrightarrow>
     reachable cfg move
       (s\<lparr>num_try := num_try s + 1,
          cur_track := (cur_track s)[nat (cur_k s) :=
            (cur_track s ! nat (cur_k s))\<lparr>pattern := pattern (cur_track s ! nat (cur_k s)) + 1\<rparr>]\<rparr>)"
| backtrack:
    "reachable cfg move s \<Longrightarrow>
     BackTrace cfg (cur_step s) (cur_track s) (cur_board s) = Inr (track1, board1, k1) \<Longrightarrow>
     reachable cfg move
       (s\<lparr>cur_step := cur_step s - 1, cur_track := track1, cur_board := board1, cur_k := k1\<rparr>)"
| accept:
    "reachable cfg move s \<Longrightarrow> in_range (cur_k s) (length (cur_track s)) \<Longrightarrow>
     TryMove cfg (cur_step s) (pattern (cur_track s ! nat (cur_k s))) (cur_track s) (cur_board s) move = Inr r \<Longrightarrow>
     r \<noteq> 0 \<Longrightarrow>
     AcceptMove cfg (cur_step s + 1) (pattern (cur_track s ! nat (cur_k s))) (cur_track s) (cur_board s) move
       = Inr (track1, board1, k1) \<Longrightarrow>
     reachable cfg move
       (s\<lparr>num_try := num_try s + 1, cur_step := cur_step s + 1, cur_track := track1,
          cur_board := board1, cur_k := k1\<rparr>)"

text \<open>
  What the board and the track hold in such a state: the cells of rows 0 to \<open>step\<close> of
  the track lie on the board, the cell of row \<open>i\<close> holds \<open>i + 1\<close>, and every other cell of the
  board holds 0.
\<close>

definition placed :: "config \<Rightarrow> search \<Rightarrow> bool" where
  "placed cfg s \<longleftrightarrow>
     board_dims cfg (cur_board s) \<and> in_range (cur_step s) (length (cur_track s)) \<and>
     (\<forall>i \<le> nat (cur_step s).
        in_range (pos_x (cur_track s ! i)) (LX cfg) \<and> in_range (pos_y (cur_track s ! i)) (LY cfg) \<and>
        board_get (cur_board s) (pos_x (cur_track s ! i)) (pos_y (cur_track s ! i)) = int i + 1) \<and>
     (\<forall>x y. in_range x (LX cfg) \<and> in_range y (LY cfg) \<and> board_get (cur_board s) x y \<noteq> 0 \<longrightarrow>
        (\<exists>i \<le> nat (cur_step s). pos_x (cur_track s ! i) = x \<and> pos_y (cur_track s ! i) = y))"

text \<open>
  A full-board event: the critical section is entered with the track and the board of a
  state of the search in which \<open>step == LX*LY-1\<close>.
\<close>

definition full_board_event :: "config \<Rightarrow> Move_t \<Rightarrow> int \<times> Track_t \<times> Board_t \<Rightarrow> bool" where
  "full_board_event cfg move ev \<longleftrightarrow>
     (\<exists>s. reachable cfg move s \<and> cur_step s = int (LX cfg * LY cfg) - 1 \<and>
          cur_track s = fst (snd ev) \<and> cur_board s = snd (snd ev))"

text \<open>The states in which the attempts of two of the configurations start.\<close>

definition source_start :: search where
  "source_start = \<lparr>cur_board = board_set (ResetBoard source_config) 5 5 1,
     cur_track = (map uninit_zero [0..<36])[0 := \<lparr>pos_x = 5, pos_y = 5, pattern = 0\<rparr>],
     cur_step = 0, cur_k = 0, num_try = 0\<rparr>"

definition open_start :: search where
  "open_start = \<lparr>cur_board = board_set (ResetBoard open_config) 0 0 1,
     cur_track = map uninit_zero [0..<12], cur_step = 0, cur_k = 0, num_try = 0\<rparr>"

section \<open>A closed tour on the 6 by 6 board\<close>

text \<open>
  A closed tour that starts in the cell (5, 5) of the source, as the list of its cells in
  the order of the visit, and the track and board that hold it.
\<close>

definition tour_cells :: "(int \<times> int) list" where
  "tour_cells =
     [(5, 5), (3, 4), (1, 5), (0, 3), (1, 1), (3, 0), (5, 1), (3, 2), (4, 0),
      (5, 2), (4, 4), (2, 5), (0, 4), (2, 3), (0, 2), (1, 0), (3, 1), (5, 0),
      (4, 2), (5, 4), (3, 5), (1, 4), (2, 2), (0, 1), (2, 0), (4, 1), (5, 3),
      (4, 5), (3, 3), (1, 2), (0, 0), (2, 1), (1, 3), (0, 5), (2, 4), (4, 3)]"

definition tour_track :: Track_t where
  "tour_track = map (\<lambda>(x, y). \<lparr>pos_x = x, pos_y = y, pattern = 0\<rparr>) tour_cells"

definition tour_board :: Board_t where
  "tour_board =
     [[31, 24, 15, 4, 13, 34], [16, 5, 30, 33, 22, 3], [25, 32, 23, 14, 35, 12],
      [6, 17, 8, 29, 2, 21], [9, 26, 19, 36, 11, 28], [18, 7, 10, 27, 20, 1]]"

section \<open>Board access\<close>

lemma in_range_nat: "in_range i n \<Longrightarrow> nat i < n"
  by (auto simp: in_range_def)

lemma in_range_nonneg: "in_range i n \<Longrightarrow> 0 \<le> i"
  by (simp add: in_range_def)

lemma board_get_set_same:
  assumes "board_dims cfg board" "in_range x (LX cfg)" "in_range y (LY cfg)"
  shows "board_get (board_set board x y v) x y = v"
proof -
  from assms have "nat x < length board" and "nat y < length (board ! nat x)"
    by (auto simp: board_dims_def in_range_def list_all_length)
  then show ?thesis
    by (simp add: board_get_def board_set_def)
qed

lemma board_get_set_other:
  assumes "(i, j) \<noteq> (x, y)" "0 \<le> i" "0 \<le> j" "0 \<le> x" "0 \<le> y"
  shows "board_get (board_set board x y v) i j = board_get board i j"
proof (cases "nat i = nat x")
  case False
  then show ?thesis
    by (simp add: board_get_def board_set_def)
next
  case True
  with assms have "nat j \<noteq> nat y" by auto
  show ?thesis
  proof (cases "nat x < length board")
    case True
    with \<open>nat i = nat x\<close> \<open>nat j \<noteq> nat y\<close> show ?thesis
      by (simp add: board_get_def board_set_def)
  next
    case False
    then have "board[nat x := (board ! nat x)[nat y := v]] = board"
      by (simp add: list_update_beyond)
    then show ?thesis
      by (simp add: board_get_def board_set_def)
  qed
qed

lemma board_dims_set:
  "board_dims cfg board \<Longrightarrow> board_dims cfg (board_set board x y v)"
proof -
  assume d: "board_dims cfg board"
  have "length ((board_set board x y v) ! n) = LY cfg" if "n < LX cfg" for n
    using d that
    by (cases "n = nat x") (simp_all add: board_dims_def board_set_def list_all_length)
  with d show ?thesis
    by (simp add: board_dims_def board_set_def list_all_length)
qed



section \<open>TryMove\<close>

text \<open>
  C4. For a step inside the track and a pattern index inside the move set, \<open>TryMove\<close>
  returns a value, and that value is true exactly when the candidate cell
  \<open>track[step] + move[k]\<close> lies on the board and is still 0 there. The function returns
  nothing but that value: track, board and move set are read only.
\<close>

theorem TryMove_succeeds_iff:
  assumes "in_range stp (length track)" and "in_range k (length move)"
  shows "\<exists>r. TryMove cfg stp k track board move = Inr r \<and>
           (r \<noteq> 0 \<longleftrightarrow>
              (0 \<le> pos_x (track ! nat stp) + fst (move ! nat k) \<and>
               pos_x (track ! nat stp) + fst (move ! nat k) < int (LX cfg) \<and>
               0 \<le> pos_y (track ! nat stp) + snd (move ! nat k) \<and>
               pos_y (track ! nat stp) + snd (move ! nat k) < int (LY cfg) \<and>
               board_get board (pos_x (track ! nat stp) + fst (move ! nat k))
                               (pos_y (track ! nat stp) + snd (move ! nat k)) = 0))"
  using assms by (auto simp: TryMove_def Let_def)

theorem TryMove_succeeds_iff_witness:
  "in_range 0 (length [\<lparr>pos_x = 0, pos_y = 0, pattern = 0\<rparr>]) \<and>
   in_range 0 (length [(1::int, 2::int)]) \<and>
   TryMove source_config 0 0 [\<lparr>pos_x = 0, pos_y = 0, pattern = 0\<rparr>]
     (replicate 6 (replicate 6 0)) [(1, 2)] = Inr 1"
  using TryMove_succeeds_iff [of 0 "[\<lparr>pos_x = 0, pos_y = 0, pattern = 0\<rparr>]" 0 "[(1, 2)]"
      source_config "replicate 6 (replicate 6 0)"]
  by (simp add: TryMove_def in_range_def source_config_def board_get_def)

section \<open>AcceptMove and BackTrace\<close>



section \<open>ShuffleMovePattern\<close>

lemma shuffle_rounds_mset:
  "length move = MAX_MOVE_PATTERN \<Longrightarrow>
   mset (fst (shuffle_rounds n rnd p move)) = mset move \<and>
   length (fst (shuffle_rounds n rnd p move)) = MAX_MOVE_PATTERN \<and>
   snd (shuffle_rounds n rnd p move) = p + 2 * n"
proof (induction n arbitrary: p move)
  case 0
  then show ?case by simp
next
  case (Suc n)
  let ?a = "rnd p mod MAX_MOVE_PATTERN"
  let ?b = "rnd (p + 1) mod MAX_MOVE_PATTERN"
  let ?move2 = "move[?a := move ! ?b, ?b := move ! ?a]"
  from Suc.prems have a: "?a < length move" and b: "?b < length move"
    by (simp_all add: MAX_MOVE_PATTERN_def)
  then have "mset ?move2 = mset move"
    by (simp add: mset_swap)
  moreover have "length ?move2 = MAX_MOVE_PATTERN"
    using Suc.prems by simp
  ultimately show ?case
    using Suc.IH [of ?move2 "p + 2"] by (simp add: Let_def)
qed

lemma exchange_nth:
  assumes "a < length xs" and "b < length xs" and "i < length xs"
  shows "xs[a := xs ! b, b := xs ! a] ! i = xs ! exchange a b i"
  using assms by (auto simp: exchange_def nth_list_update)

lemma exchange_less: "a < n \<Longrightarrow> b < n \<Longrightarrow> i < n \<Longrightarrow> exchange a b i < n"
  by (simp add: exchange_def)

lemma origin_less: "i < MAX_MOVE_PATTERN \<Longrightarrow> origin n rnd p i < MAX_MOVE_PATTERN"
proof (induction n arbitrary: p)
  case 0
  then show ?case by simp
next
  case (Suc n)
  have "rnd p mod MAX_MOVE_PATTERN < MAX_MOVE_PATTERN"
    and "rnd (p + 1) mod MAX_MOVE_PATTERN < MAX_MOVE_PATTERN"
    by (simp_all add: MAX_MOVE_PATTERN_def)
  with Suc.IH [OF Suc.prems, of "p + 2"] show ?case
    by (simp add: exchange_less)
qed

lemma shuffle_rounds_nth:
  "length move = MAX_MOVE_PATTERN \<Longrightarrow> i < MAX_MOVE_PATTERN \<Longrightarrow>
   fst (shuffle_rounds n rnd p move) ! i = move ! origin n rnd p i"
proof (induction n arbitrary: p move)
  case 0
  then show ?case by simp
next
  case (Suc n)
  let ?a = "rnd p mod MAX_MOVE_PATTERN"
  let ?b = "rnd (p + 1) mod MAX_MOVE_PATTERN"
  let ?move2 = "move[?a := move ! ?b, ?b := move ! ?a]"
  from Suc.prems(1) have a: "?a < length move" and b: "?b < length move"
    by (simp_all add: MAX_MOVE_PATTERN_def)
  have len: "length ?move2 = MAX_MOVE_PATTERN"
    using Suc.prems(1) by simp
  from origin_less [OF Suc.prems(2)] Suc.prems(1)
  have o: "origin n rnd (p + 2) i < length move" by simp
  have "fst (shuffle_rounds (Suc n) rnd p move) ! i = fst (shuffle_rounds n rnd (p + 2) ?move2) ! i"
    by (simp add: Let_def)
  also have "\<dots> = ?move2 ! origin n rnd (p + 2) i"
    using len Suc.prems(2) by (rule Suc.IH)
  also have "\<dots> = move ! exchange ?a ?b (origin n rnd (p + 2) i)"
    using a b o by (rule exchange_nth)
  finally show ?case by simp
qed

lemma shuffle_rounds_changes:
  assumes len: "length move = MAX_MOVE_PATTERN" and d: "distinct move"
  shows "fst (shuffle_rounds n rnd p move) \<noteq> move \<longleftrightarrow>
         (\<exists>i < MAX_MOVE_PATTERN. origin n rnd p i \<noteq> i)"
proof -
  let ?r = "fst (shuffle_rounds n rnd p move)"
  have lr: "length ?r = length move"
    using shuffle_rounds_mset [OF len, of n rnd p] len by simp
  have "?r = move \<longleftrightarrow> (\<forall>i < MAX_MOVE_PATTERN. ?r ! i = move ! i)"
    using lr len by (auto simp: list_eq_iff_nth_eq)
  also have "\<dots> \<longleftrightarrow> (\<forall>i < MAX_MOVE_PATTERN. move ! origin n rnd p i = move ! i)"
    by (simp add: shuffle_rounds_nth [OF len])
  also have "\<dots> \<longleftrightarrow> (\<forall>i < MAX_MOVE_PATTERN. origin n rnd p i = i)"
    using d len origin_less [of _ n rnd p] by (auto simp: nth_eq_iff_index_eq)
  finally show ?thesis by blast
qed

text \<open>
  C8, as the code has it. Each round exchanges the rows at the two indices drawn, so
  for every sequence of draws the move set after the call holds the same vectors as
  before, each as often as before, \<open>rand()\<close> has been called twice per round, and row \<open>i\<close>
  is the row that stood at the image of \<open>i\<close> under the drawn exchanges. For a move set
  of distinct vectors the order after the call differs from the order before exactly when
  the drawn exchanges do not cancel one another: it differs after a single round that
  draws two different indices.
\<close>

theorem ShuffleMovePattern_exchanges:
  assumes "length move = MAX_MOVE_PATTERN"
  shows "mset (fst (ShuffleMovePattern cfg rnd p move)) = mset move \<and>
         length (fst (ShuffleMovePattern cfg rnd p move)) = MAX_MOVE_PATTERN \<and>
         snd (ShuffleMovePattern cfg rnd p move) = p + 2 * RANDOM_MOVE_PATTERN cfg \<and>
         (\<forall>i < MAX_MOVE_PATTERN.
            fst (ShuffleMovePattern cfg rnd p move) ! i =
              move ! origin (RANDOM_MOVE_PATTERN cfg) rnd p i) \<and>
         (distinct move \<longrightarrow>
            (fst (ShuffleMovePattern cfg rnd p move) \<noteq> move \<longleftrightarrow>
               (\<exists>i < MAX_MOVE_PATTERN. origin (RANDOM_MOVE_PATTERN cfg) rnd p i \<noteq> i))) \<and>
         (distinct move \<and> RANDOM_MOVE_PATTERN cfg = 1 \<and>
          rnd p mod MAX_MOVE_PATTERN \<noteq> rnd (p + 1) mod MAX_MOVE_PATTERN \<longrightarrow>
            fst (ShuffleMovePattern cfg rnd p move) \<noteq> move)"
proof -
  have one: "fst (ShuffleMovePattern cfg rnd p move) \<noteq> move"
    if d: "distinct move" and r: "RANDOM_MOVE_PATTERN cfg = 1"
      and ne: "rnd p mod MAX_MOVE_PATTERN \<noteq> rnd (p + 1) mod MAX_MOVE_PATTERN"
  proof -
    let ?a = "rnd p mod MAX_MOVE_PATTERN"
    have "?a < MAX_MOVE_PATTERN" by (simp add: MAX_MOVE_PATTERN_def)
    moreover from ne have "origin (Suc 0) rnd p ?a \<noteq> ?a"
      by (simp add: exchange_def)
    ultimately have "\<exists>i < MAX_MOVE_PATTERN. origin (Suc 0) rnd p i \<noteq> i" by blast
    with shuffle_rounds_changes [OF assms d, of "Suc 0" rnd p] r show ?thesis
      by (simp add: ShuffleMovePattern_def)
  qed
  from shuffle_rounds_mset [OF assms, of "RANDOM_MOVE_PATTERN cfg" rnd p]
    shuffle_rounds_nth [OF assms, of _ "RANDOM_MOVE_PATTERN cfg" rnd p]
    shuffle_rounds_changes [OF assms, of "RANDOM_MOVE_PATTERN cfg" rnd p] one
  show ?thesis
    unfolding ShuffleMovePattern_def by blast
qed

lemma shuffle_rounds_numeral:
  "shuffle_rounds (numeral n) rnd p move =
     (let a = rnd p mod MAX_MOVE_PATTERN;
          b = rnd (p + 1) mod MAX_MOVE_PATTERN;
          save = move ! a;
          move1 = move[a := move ! b];
          move2 = move1[b := save]
      in shuffle_rounds (pred_numeral n) rnd (p + 2) move2)"
  by (simp add: numeral_eq_Suc)

lemmas shuffle_eval =
  ShuffleMovePattern_def source_config_def move_init_def MAX_MOVE_PATTERN_def
  rand_zero_def rand_count_def shuffle_rounds_numeral

lemma origin_numeral:
  "origin (numeral n) rnd p i =
     exchange (rnd p mod MAX_MOVE_PATTERN) (rnd (p + 1) mod MAX_MOVE_PATTERN)
       (origin (pred_numeral n) rnd (p + 2) i)"
  by (simp add: numeral_eq_Suc)

theorem ShuffleMovePattern_exchanges_witness:
  "length move_init = MAX_MOVE_PATTERN \<and> distinct move_init \<and>
   RANDOM_MOVE_PATTERN (source_config\<lparr>RANDOM_MOVE_PATTERN := 1\<rparr>) = 1 \<and>
   rand_count 0 mod MAX_MOVE_PATTERN \<noteq> rand_count (0 + 1) mod MAX_MOVE_PATTERN \<and>
   fst (ShuffleMovePattern (source_config\<lparr>RANDOM_MOVE_PATTERN := 1\<rparr>) rand_count 0 move_init)
     \<noteq> move_init \<and>
   origin (RANDOM_MOVE_PATTERN source_config) rand_count 0 0 = 1 \<and>
   fst (ShuffleMovePattern source_config rand_count 0 move_init) ! 0 = move_init ! 1 \<and>
   fst (ShuffleMovePattern source_config rand_count 0 move_init) \<noteq> move_init \<and>
   mset (fst (ShuffleMovePattern source_config rand_count 0 move_init)) = mset move_init \<and>
   snd (ShuffleMovePattern source_config rand_count 0 move_init) = 20"
proof -
  have len: "length move_init = MAX_MOVE_PATTERN"
    by (simp add: move_init_def MAX_MOVE_PATTERN_def)
  have d: "distinct move_init"
    by (simp add: move_init_def)
  have r: "RANDOM_MOVE_PATTERN (source_config\<lparr>RANDOM_MOVE_PATTERN := 1\<rparr>) = 1"
    by simp
  have ne: "rand_count 0 mod MAX_MOVE_PATTERN \<noteq> rand_count (0 + 1) mod MAX_MOVE_PATTERN"
    by (simp add: rand_count_def MAX_MOVE_PATTERN_def)
  have o: "origin (RANDOM_MOVE_PATTERN source_config) rand_count 0 0 = 1"
    by (simp add: source_config_def origin_numeral exchange_def rand_count_def MAX_MOVE_PATTERN_def)
  have z: "(0::nat) < MAX_MOVE_PATTERN"
    by (simp add: MAX_MOVE_PATTERN_def)
  note one = ShuffleMovePattern_exchanges
    [OF len, of "source_config\<lparr>RANDOM_MOVE_PATTERN := 1\<rparr>" rand_count 0]
  note ten = ShuffleMovePattern_exchanges [OF len, of source_config rand_count 0]
  from one d r ne
  have c1: "fst (ShuffleMovePattern (source_config\<lparr>RANDOM_MOVE_PATTERN := 1\<rparr>) rand_count 0 move_init)
     \<noteq> move_init"
    by blast
  from ten z o
  have c2: "fst (ShuffleMovePattern source_config rand_count 0 move_init) ! 0 = move_init ! 1"
    by auto
  from ten d z o
  have c3: "fst (ShuffleMovePattern source_config rand_count 0 move_init) \<noteq> move_init"
    by (metis zero_neq_one)
  from ten
  have c4: "mset (fst (ShuffleMovePattern source_config rand_count 0 move_init)) = mset move_init"
    and c5: "snd (ShuffleMovePattern source_config rand_count 0 move_init) = 20"
    by (simp_all add: source_config_def)
  from len d r ne c1 o c2 c3 c4 c5 show ?thesis
    by blast
qed
text \<open>
  C8, as the specification states it, fails: when \<open>rand()\<close> returns 0 at every call, each
  round exchanges row 0 with itself and the order after the call is the order before.
\<close>

theorem ShuffleMovePattern_same_order:
  "fst (ShuffleMovePattern source_config rand_zero 0 move_init) = move_init"
  by (simp add: shuffle_eval)

section \<open>The board dump\<close>

declare digits.simps [simp del]

lemmas print_eval =
  fPrintBoard_def print_line_def spec_dump_def spec_line_def print_d_def digits.simps
  source_config_def tour_board_def upt_rec

text \<open>
  C7, as the code has it. The critical section leaves the file alone when the tour is
  open. When the tour is closed it appends one dump to it: for each \<open>j\<close> from \<open>LY - 1\<close>
  down to 0 one line with the \<open>LX\<close> values \<open>board[0][j]\<close>, ..., \<open>board[LX-1][j]\<close>, every one
  of them, the last included, followed by one space, and then the newline; after these
  \<open>LY\<close> lines one empty line.
\<close>

theorem critical_section_dump:
  "fc (critical_section cfg thread_id track board sh) =
     (if IsClosedTour (pos_x (track ! (LX cfg * LY cfg - 1))) (pos_y (track ! (LX cfg * LY cfg - 1)))
           (pos_x (track ! 0)) (pos_y (track ! 0)) \<noteq> 0
      then fc sh @
           concat (map (\<lambda>j. concat (map (\<lambda>i. print_d (board ! i ! j) @ '' '') [0..<LX cfg])
                             @ [CHR 0x0A])
                       (rev [0..<LY cfg])) @
           [CHR 0x0A]
      else fc sh)"
  by (simp add: critical_section_def fPrintBoard_def Let_def print_line_def [abs_def])

theorem critical_section_dump_witness:
  "fc (critical_section source_config 0 tour_track tour_board (shared_init [])) =
     ''34 3 12 21 28 1 \<newline>13 22 35 2 11 20 \<newline>4 33 14 29 36 27 \<newline>'' @
     ''15 30 23 8 19 10 \<newline>24 5 32 17 26 7 \<newline>31 16 25 6 9 18 \<newline>\<newline>''"
proof -
  have closed: "IsClosedTour (pos_x (tour_track ! (LX source_config * LY source_config - 1)))
      (pos_y (tour_track ! (LX source_config * LY source_config - 1)))
      (pos_x (tour_track ! 0)) (pos_y (tour_track ! 0)) \<noteq> 0"
    by (simp add: IsClosedTour_def tour_track_def tour_cells_def source_config_def)
  show ?thesis
    unfolding critical_section_dump [of source_config 0 tour_track tour_board "shared_init []"]
    using closed
    by (simp add: shared_init_def print_d_def digits.simps source_config_def tour_board_def upt_rec)
qed

text \<open>
  C7, as the specification states it, fails on the closed tour above: the lines written
  by the code end in a space, the lines of values separated by single spaces do not.
\<close>

theorem critical_section_dump_not_separated:
  "fc (critical_section source_config 0 tour_track tour_board (shared_init [])) \<noteq>
     spec_dump source_config tour_board"
  by (simp add: critical_section_def shared_init_def IsClosedTour_def tour_track_def
      tour_cells_def Let_def print_eval)

section \<open>The counters\<close>

lemma critical_section_counters:
  "num_found (critical_section cfg thread_id track board sh) = num_found sh + 1 \<and>
   (num_closed (critical_section cfg thread_id track board sh) = num_closed sh + 1 \<and>
    num_opened (critical_section cfg thread_id track board sh) = num_opened sh
    \<or>
    num_closed (critical_section cfg thread_id track board sh) = num_closed sh \<and>
    num_opened (critical_section cfg thread_id track board sh) = num_opened sh + 1)"
  by (simp add: critical_section_def Let_def)

lemma critical_sections_counters:
  "num_found (critical_sections cfg events sh) = num_found sh + int (length events) \<and>
   num_closed (critical_sections cfg events sh) + num_opened (critical_sections cfg events sh) =
     num_closed sh + num_opened sh + int (length events)"
proof (induction events arbitrary: sh)
  case Nil
  then show ?case by simp
next
  case (Cons ev events)
  obtain thread_id track board where ev: "ev = (thread_id, track, board)"
    by (cases ev)
  show ?case
    using Cons.IH [of "critical_section cfg thread_id track board sh"]
      critical_section_counters [of cfg thread_id track board sh]
    by (auto simp: ev)
qed

section \<open>The shared variables during a run\<close>

declare cascade.simps [simp del]

lemma critical_sections_append:
  "critical_sections cfg (es1 @ es2) sh = critical_sections cfg es2 (critical_sections cfg es1 sh)"
  by (induction es1 arbitrary: sh) auto

lemma accept_step_shared:
  assumes "accept_step cfg thread_id move s sh = Inr (s2, sh2)"
  shows "\<exists>events. sh2 = critical_sections cfg events sh"
proof -
  from assms have "sh2 = sh \<or> (\<exists>track board. sh2 = critical_section cfg thread_id track board sh)"
    by (auto simp: accept_step_def Let_def split: if_splits sum.splits prod.splits)
  then show ?thesis
  proof
    assume "sh2 = sh"
    then have "sh2 = critical_sections cfg [] sh" by simp
    then show ?thesis ..
  next
    assume "\<exists>track board. sh2 = critical_section cfg thread_id track board sh"
    then obtain track board where "sh2 = critical_section cfg thread_id track board sh" by blast
    then have "sh2 = critical_sections cfg [(thread_id, track, board)] sh" by simp
    then show ?thesis ..
  qed
qed

lemma search_loop_result:
  assumes "search_loop cfg thread_id move s sh = Some y"
  shows "case y of Inl e \<Rightarrow> True
         | Inr (s1, sh1) \<Rightarrow> as_double (MAX_TRY cfg) \<le> as_double (num_try s1) \<and>
             (\<exists>events. sh1 = critical_sections cfg events sh)"
proof (rule search_loop.raw_induct
    [where P = "\<lambda>cfg thread_id move s sh y. case y of Inl e \<Rightarrow> True
         | Inr (s1, sh1) \<Rightarrow> as_double (MAX_TRY cfg) \<le> as_double (num_try s1) \<and>
             (\<exists>events. sh1 = critical_sections cfg events sh)",
     OF _ assms])
  fix f cfg thread_id move s sh y
  assume IH: "\<And>cfg thread_id move s sh y. f cfg thread_id move s sh = Some y \<Longrightarrow>
      (case y of Inl e \<Rightarrow> True
       | Inr (s1, sh1) \<Rightarrow> as_double (MAX_TRY cfg) \<le> as_double (num_try s1) \<and>
             (\<exists>events. sh1 = critical_sections cfg events sh))"
    and body: "(if \<not> as_double (num_try s) < as_double (MAX_TRY cfg) then Some (Inr (s, sh))
      else Option.bind (try_loop cfg move s)
            (\<lambda>r. case r of Inl e \<Rightarrow> Some (Inl e)
                 | Inr s1 \<Rightarrow>
                     case accept_step cfg thread_id move s1 sh of
                     Inl e \<Rightarrow> Some (Inl e)
                     | Inr (s2, sh2) \<Rightarrow> f cfg thread_id move s2 sh2)) = Some y"
  show "case y of Inl e \<Rightarrow> True
         | Inr (s1, sh1) \<Rightarrow> as_double (MAX_TRY cfg) \<le> as_double (num_try s1) \<and>
             (\<exists>events. sh1 = critical_sections cfg events sh)"
  proof (cases "as_double (num_try s) < as_double (MAX_TRY cfg)")
    case False
    with body have "y = Inr (s, sh)" by simp
    moreover have "\<exists>events. sh = critical_sections cfg events sh"
      by (rule exI [of _ "[]"]) simp
    ultimately show ?thesis using False by simp
  next
    case True
    show ?thesis
    proof (cases y)
      case (Inl e)
      then show ?thesis by simp
    next
      case (Inr res)
      obtain s1 sh1 where res: "res = (s1, sh1)" by (cases res)
      from body True Inr obtain sa s2 sh2 where
        a: "accept_step cfg thread_id move sa sh = Inr (s2, sh2)"
        and r: "f cfg thread_id move s2 sh2 = Some y"
        by (auto split: Option.bind_splits sum.splits prod.splits)
      from IH [OF r] Inr res obtain events2 where
        b: "as_double (MAX_TRY cfg) \<le> as_double (num_try s1)" and e2: "sh1 = critical_sections cfg events2 sh2"
        by auto
      from accept_step_shared [OF a] obtain events1 where
        e1: "sh2 = critical_sections cfg events1 sh" ..
      from e1 e2 have "sh1 = critical_sections cfg (events1 @ events2) sh"
        by (simp add: critical_sections_append)
      with b Inr res show ?thesis by auto
    qed
  qed
qed

lemma critical_sections_trans:
  assumes "\<exists>events. sh1 = critical_sections cfg events sh"
    and "\<exists>events. sh2 = critical_sections cfg events sh1"
  shows "\<exists>events. sh2 = critical_sections cfg events sh"
proof -
  from assms obtain es1 es2 where "sh1 = critical_sections cfg es1 sh"
    and "sh2 = critical_sections cfg es2 sh1" by blast
  then have "sh2 = critical_sections cfg (es1 @ es2) sh"
    by (simp add: critical_sections_append)
  then show ?thesis ..
qed

lemma critical_sections_refl: "\<exists>events. sh = critical_sections cfg events sh"
  by (rule exI [of _ "[]"]) simp

lemma attempt_shared:
  assumes "attempt cfg thread_id rnd p move track sh = Some (Inr (p1, move1, track1, sh1))"
  shows "\<exists>events. sh1 = critical_sections cfg events sh"
proof -
  from assms obtain move2 s0 s1 where
    "search_loop cfg thread_id move2 s0 sh = Some (Inr (s1, sh1))"
    by (auto simp: attempt_def split: prod.splits sum.splits Option.bind_splits)
  from search_loop_result [OF this] show ?thesis by simp
qed

lemma pattern_loop_shared:
  "pattern_loop n cfg thread_id rnd p move track sh = Some (Inr (p1, sh1)) \<Longrightarrow>
   \<exists>events. sh1 = critical_sections cfg events sh"
proof (induction n arbitrary: p move track sh)
  case 0
  then show ?case by (simp add: critical_sections_refl)
next
  case (Suc n)
  from Suc.prems obtain p2 move2 track2 sh2 where
    a: "attempt cfg thread_id rnd p move track sh = Some (Inr (p2, move2, track2, sh2))"
    and r: "pattern_loop n cfg thread_id rnd p2 move2 track2 sh2 = Some (Inr (p1, sh1))"
    by (auto split: Option.bind_splits sum.splits prod.splits)
  from attempt_shared [OF a] Suc.IH [OF r] show ?case
    by (rule critical_sections_trans)
qed

lemma start_loop_shared:
  "start_loop n cfg rnd p uninit sh = Some (Inr (p1, sh1)) \<Longrightarrow>
   \<exists>events. sh1 = critical_sections cfg events sh"
proof (induction n arbitrary: p sh)
  case 0
  then show ?case by (simp add: critical_sections_refl)
next
  case (Suc n)
  from Suc.prems obtain p2 sh2 where
    a: "start_body cfg 0 rnd p uninit sh = Some (Inr (p2, sh2))"
    and r: "start_loop n cfg rnd p2 uninit sh2 = Some (Inr (p1, sh1))"
    by (auto split: Option.bind_splits sum.splits prod.splits)
  from a have "\<exists>events. sh2 = critical_sections cfg events sh"
    by (auto simp: start_body_def Let_def split: if_splits dest: pattern_loop_shared)
  from this Suc.IH [OF r] show ?case
    by (rule critical_sections_trans)
qed

lemma run_search_result:
  assumes "run_search cfg rnd uninit file = Some (Inr out)"
  shows "\<exists>events sh. sh = critical_sections cfg events
            (shared_init (case file of None \<Rightarrow> [] | Some contents \<Rightarrow> contents)) \<and>
          out = \<lparr>out_console = console sh @ summary sh, out_file = Some (fc sh), out_return = 0\<rparr>"
proof -
  from assms obtain p sh where
    l: "start_loop (MAX_START cfg) cfg rnd 0 uninit
          (shared_init (case file of None \<Rightarrow> [] | Some contents \<Rightarrow> contents)) = Some (Inr (p, sh))"
    and o: "out = \<lparr>out_console = console sh @ summary sh, out_file = Some (fc sh), out_return = 0\<rparr>"
    unfolding run_search_def
    by (auto split: Option.bind_splits sum.splits prod.splits)
  from start_loop_shared [OF l] o show ?thesis by blast
qed

text \<open>
  C10. One critical section adds one to \<open>num_found\<close> and one to exactly one of
  \<open>num_closed\<close> and \<open>num_opened\<close>. So after any sequence of critical sections that starts
  from the three zeros, \<open>num_found = num_closed + num_opened\<close>; and the three numbers that
  a run prints at its end are the counters of a state that satisfies the same equation.
\<close>

theorem num_found_is_closed_plus_opened:
  "num_found (critical_section cfg thread_id track board sh) = num_found sh + 1 \<and>
   (num_closed (critical_section cfg thread_id track board sh) = num_closed sh + 1 \<and>
    num_opened (critical_section cfg thread_id track board sh) = num_opened sh
    \<or>
    num_closed (critical_section cfg thread_id track board sh) = num_closed sh \<and>
    num_opened (critical_section cfg thread_id track board sh) = num_opened sh + 1) \<and>
   num_found (critical_sections cfg events (shared_init file)) =
     num_closed (critical_sections cfg events (shared_init file)) +
     num_opened (critical_sections cfg events (shared_init file)) \<and>
   (\<forall>out. main cfg rnd uninit file0 = Some (Inr out) \<longrightarrow>
      out_console out = config_error_message \<or>
      (\<exists>sh. num_found sh = num_closed sh + num_opened sh \<and>
            out_console out = console sh @ summary sh))"
proof -
  have seq: "num_found (critical_sections cfg events (shared_init fl)) =
     num_closed (critical_sections cfg events (shared_init fl)) +
     num_opened (critical_sections cfg events (shared_init fl))" for events fl
    using critical_sections_counters [of cfg events "shared_init fl"]
    by (simp add: shared_init_def)
  have run: "out_console out = config_error_message \<or>
      (\<exists>sh. num_found sh = num_closed sh + num_opened sh \<and>
            out_console out = console sh @ summary sh)"
    if m: "main cfg rnd uninit file0 = Some (Inr out)" for out
  proof (cases "as_double (MAX_TRY cfg) \<ge> pow_8 (LX cfg * LY cfg)")
    case True
    with m show ?thesis by (auto simp: main_def)
  next
    case False
    with m have "run_search cfg rnd uninit file0 = Some (Inr out)"
      by (simp add: main_def)
    from run_search_result [OF this] obtain events sh where
      "sh = critical_sections cfg events
              (shared_init (case file0 of None \<Rightarrow> [] | Some contents \<Rightarrow> contents))"
      and "out_console out = console sh @ summary sh"
      by auto
    with seq show ?thesis by blast
  qed
  from critical_section_counters [of cfg thread_id track board sh] seq [of events "file"] run
  show ?thesis by blast
qed

lemmas run_eval =
  main_def run_search_def start_body_def attempt_def search_init_def
  search_loop.simps try_loop.simps cascade.simps accept_step_def TryMove_def AcceptMove_def
  BackTrace_def in_range_def board_get_def board_set_def ResetBoard_def critical_section_def
  IsClosedTour_def fPrintBoard_def print_line_def shared_init_def Let_def
  ShuffleMovePattern_def move_init_def MAX_MOVE_PATTERN_def rand_zero_def
  shuffle_rounds_numeral uninit_zero_def upt_rec summary_def print_d_def digits.simps
  as_double_def pow_8_def

lemma main_open_config:
  "main open_config rand_zero uninit_zero None =
     Some (Inr \<lparr>out_console =
       ''Thread 0: Found an opened knight tour.'' @ [CHR 0x0A] @
       ''Thread 0: Found an opened knight tour.'' @ [CHR 0x0A] @ [CHR 0x0A] @
       ''Totally 2 tours were found.'' @ [CHR 0x0A] @
       ''Totally 2 opened tours were found.'' @ [CHR 0x0A] @
       ''Totally 0 closed tours were found.'' @ [CHR 0x0A] @ [CHR 0x0A] @
       ''Note: Some may be repeated.'' @ [CHR 0x0A],
       out_file = Some [], out_return = 0\<rparr>)"
  by (simp add: open_config_def run_eval)

theorem num_found_is_closed_plus_opened_witness:
  "\<exists>out sh. main open_config rand_zero uninit_zero None = Some (Inr out) \<and>
     out_console out \<noteq> config_error_message \<and>
     num_found sh = num_closed sh + num_opened sh \<and>
     out_console out = console sh @ summary sh"
proof -
  let ?out = "\<lparr>out_console =
       ''Thread 0: Found an opened knight tour.'' @ [CHR 0x0A] @
       ''Thread 0: Found an opened knight tour.'' @ [CHR 0x0A] @ [CHR 0x0A] @
       ''Totally 2 tours were found.'' @ [CHR 0x0A] @
       ''Totally 2 opened tours were found.'' @ [CHR 0x0A] @
       ''Totally 0 closed tours were found.'' @ [CHR 0x0A] @ [CHR 0x0A] @
       ''Note: Some may be repeated.'' @ [CHR 0x0A],
       out_file = Some [], out_return = 0\<rparr>"
  have m: "main open_config rand_zero uninit_zero None = Some (Inr ?out)"
    by (rule main_open_config)
  have n: "out_console ?out \<noteq> config_error_message"
    by (simp add: config_error_message_def)
  from num_found_is_closed_plus_opened
    [of open_config 0 "[]" "[]" "shared_init []" "[]" "[]" rand_zero uninit_zero None] m n
  have "\<exists>sh. num_found sh = num_closed sh + num_opened sh \<and>
      out_console ?out = console sh @ summary sh"
    by blast
  with m n show ?thesis by blast
qed

section \<open>The board during the search\<close>

lemma pos_pattern_update:
  "pos_x (track[j := (track ! j)\<lparr>pattern := v\<rparr>] ! i) = pos_x (track ! i)"
  "pos_y (track[j := (track ! j)\<lparr>pattern := v\<rparr>] ! i) = pos_y (track ! i)"
proof -
  have "track[j := (track ! j)\<lparr>pattern := v\<rparr>] = track" if "\<not> j < length track"
    using that by (simp add: list_update_beyond)
  then show "pos_x (track[j := (track ! j)\<lparr>pattern := v\<rparr>] ! i) = pos_x (track ! i)"
    and "pos_y (track[j := (track ! j)\<lparr>pattern := v\<rparr>] ! i) = pos_y (track ! i)"
    by (cases "j < length track"; cases "i = j"; simp)+
qed

lemma board_dims_Reset: "board_dims cfg (ResetBoard cfg)"
  by (simp add: board_dims_def ResetBoard_def list_all_iff)

lemma board_get_Reset:
  "in_range x (LX cfg) \<Longrightarrow> in_range y (LY cfg) \<Longrightarrow> board_get (ResetBoard cfg) x y = 0"
  by (simp add: board_get_def ResetBoard_def in_range_nat)

lemma placed_init:
  assumes "search_init cfg track = Inr s"
  shows "placed cfg s"
proof -
  let ?x = "pos_x (track ! 0)" and ?y = "pos_y (track ! 0)"
  from assms have len: "0 < length track" and x: "in_range ?x (LX cfg)" and y: "in_range ?y (LY cfg)"
    and s: "s = \<lparr>cur_board = board_set (ResetBoard cfg) ?x ?y 1,
                cur_track = track[0 := (track ! 0)\<lparr>pattern := 0\<rparr>],
                cur_step = 0, cur_k = 0, num_try = 0\<rparr>"
    by (auto simp: search_init_def in_range_def split: if_splits)
  have d: "board_dims cfg (cur_board s)"
    unfolding s using board_dims_Reset by (simp add: board_dims_set)
  have r: "in_range (cur_step s) (length (cur_track s))"
    unfolding s using len by (simp add: in_range_def)
  have one: "board_get (cur_board s) ?x ?y = 1"
    unfolding s using board_get_set_same [OF board_dims_Reset x y] by simp
  have other: "board_get (cur_board s) x' y' = 0"
    if "in_range x' (LX cfg)" "in_range y' (LY cfg)" "(x', y') \<noteq> (?x, ?y)" for x' y'
  proof -
    from that x y have "board_get (board_set (ResetBoard cfg) ?x ?y 1) x' y' = board_get (ResetBoard cfg) x' y'"
      by (intro board_get_set_other) (auto simp: in_range_def)
    with that show ?thesis unfolding s by (simp add: board_get_Reset)
  qed
  have p0: "pos_x (cur_track s ! 0) = ?x" "pos_y (cur_track s ! 0) = ?y"
    unfolding s by (simp_all add: pos_pattern_update)
  show ?thesis
    unfolding placed_def
  proof (intro conjI allI impI)
    show "board_dims cfg (cur_board s)" by (rule d)
    show "in_range (cur_step s) (length (cur_track s))" by (rule r)
  next
    fix i assume "i \<le> nat (cur_step s)"
    then have i: "i = 0" unfolding s by simp
    show "in_range (pos_x (cur_track s ! i)) (LX cfg)" unfolding i p0 by (rule x)
    show "in_range (pos_y (cur_track s ! i)) (LY cfg)" unfolding i p0 by (rule y)
    show "board_get (cur_board s) (pos_x (cur_track s ! i)) (pos_y (cur_track s ! i)) = int i + 1"
      unfolding i p0 using one by simp
  next
    fix x' y'
    assume a: "in_range x' (LX cfg) \<and> in_range y' (LY cfg) \<and> board_get (cur_board s) x' y' \<noteq> 0"
    with other [of x' y'] have "(x', y') = (?x, ?y)" by blast
    with p0 have "pos_x (cur_track s ! 0) = x' \<and> pos_y (cur_track s ! 0) = y'" by simp
    then show "\<exists>i\<le>nat (cur_step s). pos_x (cur_track s ! i) = x' \<and> pos_y (cur_track s ! i) = y'"
      by blast
  qed
qed

lemma placed_try_failed:
  assumes "placed cfg s"
  shows "placed cfg (s\<lparr>num_try := n, cur_track := (cur_track s)[j := (cur_track s ! j)\<lparr>pattern := v\<rparr>]\<rparr>)"
  using assms by (simp add: placed_def pos_pattern_update)


lemma placed_dims: "placed cfg s \<Longrightarrow> board_dims cfg (cur_board s)"
  by (simp add: placed_def)

lemma placed_step: "placed cfg s \<Longrightarrow> in_range (cur_step s) (length (cur_track s))"
  by (simp add: placed_def)

lemma placed_cell:
  assumes "placed cfg s" and "i \<le> nat (cur_step s)"
  shows "in_range (pos_x (cur_track s ! i)) (LX cfg)"
    and "in_range (pos_y (cur_track s ! i)) (LY cfg)"
    and "board_get (cur_board s) (pos_x (cur_track s ! i)) (pos_y (cur_track s ! i)) = int i + 1"
proof -
  from assms(1) have "\<forall>i \<le> nat (cur_step s).
        in_range (pos_x (cur_track s ! i)) (LX cfg) \<and> in_range (pos_y (cur_track s ! i)) (LY cfg) \<and>
        board_get (cur_board s) (pos_x (cur_track s ! i)) (pos_y (cur_track s ! i)) = int i + 1"
    unfolding placed_def by (elim conjE)
  with assms(2) show "in_range (pos_x (cur_track s ! i)) (LX cfg)"
    and "in_range (pos_y (cur_track s ! i)) (LY cfg)"
    and "board_get (cur_board s) (pos_x (cur_track s ! i)) (pos_y (cur_track s ! i)) = int i + 1"
    by blast+
qed

lemma placed_mark:
  assumes "placed cfg s" and "in_range x (LX cfg)" and "in_range y (LY cfg)"
    and "board_get (cur_board s) x y \<noteq> 0"
  shows "\<exists>i \<le> nat (cur_step s). pos_x (cur_track s ! i) = x \<and> pos_y (cur_track s ! i) = y"
proof -
  from assms(1) have "\<forall>x y. in_range x (LX cfg) \<and> in_range y (LY cfg) \<and> board_get (cur_board s) x y \<noteq> 0 \<longrightarrow>
        (\<exists>i \<le> nat (cur_step s). pos_x (cur_track s ! i) = x \<and> pos_y (cur_track s ! i) = y)"
    unfolding placed_def by (elim conjE)
  with assms(2-4) show ?thesis by blast
qed

lemma placedI:
  assumes "board_dims cfg (cur_board s)" and "in_range (cur_step s) (length (cur_track s))"
    and "\<And>i. i \<le> nat (cur_step s) \<Longrightarrow>
        in_range (pos_x (cur_track s ! i)) (LX cfg) \<and> in_range (pos_y (cur_track s ! i)) (LY cfg) \<and>
        board_get (cur_board s) (pos_x (cur_track s ! i)) (pos_y (cur_track s ! i)) = int i + 1"
    and "\<And>x y. in_range x (LX cfg) \<Longrightarrow> in_range y (LY cfg) \<Longrightarrow> board_get (cur_board s) x y \<noteq> 0 \<Longrightarrow>
        \<exists>i \<le> nat (cur_step s). pos_x (cur_track s ! i) = x \<and> pos_y (cur_track s ! i) = y"
  shows "placed cfg s"
  unfolding placed_def using assms by blast

lemma placed_BackTrace:
  assumes p: "placed cfg s"
    and b: "BackTrace cfg (cur_step s) (cur_track s) (cur_board s) = Inr (track1, board1, k1)"
  shows "placed cfg (s\<lparr>cur_step := cur_step s - 1, cur_track := track1, cur_board := board1,
                          cur_k := k1\<rparr>)"
proof -
  define n where "n = nat (cur_step s)"
  define x where "x = pos_x (cur_track s ! n)"
  define y where "y = pos_y (cur_track s ! n)"
  define s1 where "s1 = s\<lparr>cur_step := cur_step s - 1, cur_track := track1, cur_board := board1,
                          cur_k := k1\<rparr>"
  have ok: "in_range (cur_step s - 1) (length (cur_track s)) \<and>
      track1 = (cur_track s)[nat (cur_step s - 1) :=
               (cur_track s ! nat (cur_step s - 1))
                 \<lparr>pattern := pattern (cur_track s ! nat (cur_step s - 1)) + 1\<rparr>] \<and>
      board1 = board_set (cur_board s) x y 0"
    using b unfolding BackTrace_def Let_def x_def y_def n_def
    by (auto split: if_splits)
  then have lo: "in_range (cur_step s - 1) (length (cur_track s))"
    and b1: "board1 = board_set (cur_board s) x y 0"
    by simp_all
  from lo have n: "nat (cur_step s - 1) = n - 1" "0 < n"
    unfolding in_range_def n_def by simp_all
  have p1: "pos_x (track1 ! i) = pos_x (cur_track s ! i)" "pos_y (track1 ! i) = pos_y (cur_track s ! i)" for i
    using ok by (simp_all add: pos_pattern_update)
  have len: "length track1 = length (cur_track s)"
    using ok by simp
  have s1: "cur_step s1 = cur_step s - 1" "cur_track s1 = track1" "cur_board s1 = board1"
    by (simp_all add: s1_def)
  have sn: "nat (cur_step s1) = n - 1"
    using n by (simp add: s1)
  have d: "board_dims cfg (cur_board s)"
    using p by (rule placed_dims)
  have xy: "in_range x (LX cfg)" "in_range y (LY cfg)"
    and top: "board_get (cur_board s) x y = int n + 1"
    using placed_cell [OF p, of n] by (simp_all add: n_def x_def y_def)
  have keep: "board_get board1 x' y' = board_get (cur_board s) x' y'"
    if "in_range x' (LX cfg)" "in_range y' (LY cfg)" "(x', y') \<noteq> (x, y)" for x' y'
    unfolding b1 using that(3) in_range_nonneg [OF that(1)] in_range_nonneg [OF that(2)]
      in_range_nonneg [OF xy(1)] in_range_nonneg [OF xy(2)]
    by (rule board_get_set_other)
  have gone: "board_get board1 x y = 0"
    unfolding b1 using d xy by (rule board_get_set_same)
  have "placed cfg s1"
  proof (rule placedI)
    show "board_dims cfg (cur_board s1)"
      using d by (simp add: s1 b1 board_dims_set)
    show "in_range (cur_step s1) (length (cur_track s1))"
      using lo by (simp add: s1 len)
  next
    fix i
    assume "i \<le> nat (cur_step s1)"
    with sn n have i: "i < n" by simp
    then have i': "i \<le> nat (cur_step s)" by (simp add: n_def)
    note c = placed_cell [OF p i']
    have "(pos_x (cur_track s ! i), pos_y (cur_track s ! i)) \<noteq> (x, y)"
    proof
      assume "(pos_x (cur_track s ! i), pos_y (cur_track s ! i)) = (x, y)"
      with c(3) top have "int i + 1 = int n + 1" by simp
      with i show False by simp
    qed
    with c have "board_get board1 (pos_x (cur_track s ! i)) (pos_y (cur_track s ! i)) = int i + 1"
      by (simp add: keep)
    with c show "in_range (pos_x (cur_track s1 ! i)) (LX cfg) \<and>
        in_range (pos_y (cur_track s1 ! i)) (LY cfg) \<and>
        board_get (cur_board s1) (pos_x (cur_track s1 ! i)) (pos_y (cur_track s1 ! i)) = int i + 1"
      by (simp add: s1 p1)
  next
    fix x' y'
    assume r: "in_range x' (LX cfg)" "in_range y' (LY cfg)"
      and "board_get (cur_board s1) x' y' \<noteq> 0"
    then have nz: "board_get board1 x' y' \<noteq> 0" by (simp add: s1)
    from nz gone have ne: "(x', y') \<noteq> (x, y)" by auto
    with r nz have "board_get (cur_board s) x' y' \<noteq> 0" by (simp add: keep)
    from placed_mark [OF p r this] obtain i where
      i: "i \<le> nat (cur_step s)" "pos_x (cur_track s ! i) = x'" "pos_y (cur_track s ! i) = y'"
      by blast
    from i(2,3) ne have "i \<noteq> n" unfolding x_def y_def by auto
    with i(1) have "i \<le> n - 1" by (simp add: n_def)
    with i(2,3) have "i \<le> nat (cur_step s1) \<and> pos_x (cur_track s1 ! i) = x' \<and> pos_y (cur_track s1 ! i) = y'"
      using sn by (simp add: s1(2) p1)
    then show "\<exists>i\<le>nat (cur_step s1). pos_x (cur_track s1 ! i) = x' \<and> pos_y (cur_track s1 ! i) = y'"
      by blast
  qed
  then show ?thesis by (simp add: s1_def)
qed

lemma placed_AcceptMove:
  assumes p: "placed cfg s"
    and t: "TryMove cfg (cur_step s) k (cur_track s) (cur_board s) move = Inr r" and r: "r \<noteq> 0"
    and a: "AcceptMove cfg (cur_step s + 1) k (cur_track s) (cur_board s) move = Inr (track1, board1, k1)"
  shows "placed cfg (s\<lparr>num_try := m, cur_step := cur_step s + 1, cur_track := track1,
                          cur_board := board1, cur_k := k1\<rparr>)"
proof -
  define n where "n = nat (cur_step s)"
  define x where "x = pos_x (cur_track s ! n) + fst (move ! nat k)"
  define y where "y = pos_y (cur_track s ! n) + snd (move ! nat k)"
  define s1 where "s1 = s\<lparr>num_try := m, cur_step := cur_step s + 1, cur_track := track1,
                          cur_board := board1, cur_k := k1\<rparr>"
  have st: "0 \<le> cur_step s"
    using placed_step [OF p] by (rule in_range_nonneg)
  have free: "in_range x (LX cfg) \<and> in_range y (LY cfg) \<and> board_get (cur_board s) x y = 0"
    using t r unfolding TryMove_def Let_def x_def y_def n_def in_range_def
    by (auto split: if_splits)
  then have xy: "in_range x (LX cfg)" "in_range y (LY cfg)"
    and zero: "board_get (cur_board s) x y = 0"
    by simp_all
  have ok: "in_range (cur_step s + 1) (length (cur_track s)) \<and>
      track1 = (cur_track s)[nat (cur_step s + 1) := \<lparr>pos_x = x, pos_y = y, pattern = 0\<rparr>] \<and>
      board1 = board_set (cur_board s) x y (cur_step s + 1 + 1)"
    using a unfolding AcceptMove_def Let_def x_def y_def n_def
    by (auto split: if_splits)
  from st have n: "nat (cur_step s + 1) = Suc n" "cur_step s = int n"
    by (simp_all add: n_def)
  from ok n have hi: "Suc n < length (cur_track s)"
    by (simp add: in_range_def)
  have t1: "track1 = (cur_track s)[Suc n := \<lparr>pos_x = x, pos_y = y, pattern = 0\<rparr>]"
    using ok n by simp
  have b1: "board1 = board_set (cur_board s) x y (int n + 2)"
    using ok n by (simp add: add.commute)
  have s1: "cur_step s1 = cur_step s + 1" "cur_track s1 = track1" "cur_board s1 = board1"
    by (simp_all add: s1_def)
  have sn: "nat (cur_step s1) = Suc n"
    using n by (simp add: s1)
  have d: "board_dims cfg (cur_board s)"
    using p by (rule placed_dims)
  have old: "track1 ! i = cur_track s ! i" if "i \<le> n" for i
    using that by (simp add: t1)
  have new: "track1 ! Suc n = \<lparr>pos_x = x, pos_y = y, pattern = 0\<rparr>"
    using hi by (simp add: t1)
  have keep: "board_get board1 x' y' = board_get (cur_board s) x' y'"
    if "in_range x' (LX cfg)" "in_range y' (LY cfg)" "(x', y') \<noteq> (x, y)" for x' y'
    unfolding b1 using that(3) in_range_nonneg [OF that(1)] in_range_nonneg [OF that(2)]
      in_range_nonneg [OF xy(1)] in_range_nonneg [OF xy(2)]
    by (rule board_get_set_other)
  have marked: "board_get board1 x y = int n + 2"
    unfolding b1 using d xy by (rule board_get_set_same)
  have "placed cfg s1"
  proof (rule placedI)
    show "board_dims cfg (cur_board s1)"
      using d by (simp add: s1 b1 board_dims_set)
    show "in_range (cur_step s1) (length (cur_track s1))"
      using ok by (simp add: s1)
  next
    fix i
    assume "i \<le> nat (cur_step s1)"
    with sn have "i \<le> n \<or> i = Suc n" by auto
    then show "in_range (pos_x (cur_track s1 ! i)) (LX cfg) \<and>
        in_range (pos_y (cur_track s1 ! i)) (LY cfg) \<and>
        board_get (cur_board s1) (pos_x (cur_track s1 ! i)) (pos_y (cur_track s1 ! i)) = int i + 1"
    proof
      assume i: "i \<le> n"
      then have i': "i \<le> nat (cur_step s)" by (simp add: n_def)
      note c = placed_cell [OF p i']
      have "(pos_x (cur_track s ! i), pos_y (cur_track s ! i)) \<noteq> (x, y)"
      proof
        assume "(pos_x (cur_track s ! i), pos_y (cur_track s ! i)) = (x, y)"
        with c(3) zero show False by simp
      qed
      with c have "board_get board1 (pos_x (cur_track s ! i)) (pos_y (cur_track s ! i)) = int i + 1"
        by (simp add: keep)
      with c show ?thesis
        by (simp add: s1 old [OF i])
    next
      assume i: "i = Suc n"
      from xy marked show ?thesis
        by (simp add: s1 i new)
    qed
  next
    fix x' y'
    assume r: "in_range x' (LX cfg)" "in_range y' (LY cfg)"
      and "board_get (cur_board s1) x' y' \<noteq> 0"
    then have nz: "board_get board1 x' y' \<noteq> 0" by (simp add: s1)
    show "\<exists>i\<le>nat (cur_step s1). pos_x (cur_track s1 ! i) = x' \<and> pos_y (cur_track s1 ! i) = y'"
    proof (cases "(x', y') = (x, y)")
      case True
      then have "Suc n \<le> nat (cur_step s1) \<and> pos_x (cur_track s1 ! Suc n) = x' \<and>
          pos_y (cur_track s1 ! Suc n) = y'"
        using sn by (simp add: s1(2) new)
      then show ?thesis by blast
    next
      case False
      with r nz have "board_get (cur_board s) x' y' \<noteq> 0" by (simp add: keep)
      from placed_mark [OF p r this] obtain i where
        i: "i \<le> nat (cur_step s)" "pos_x (cur_track s ! i) = x'" "pos_y (cur_track s ! i) = y'"
        by blast
      from i(1) have le: "i \<le> n" by (simp add: n_def)
      with i(2,3) have "i \<le> nat (cur_step s1) \<and> pos_x (cur_track s1 ! i) = x' \<and>
          pos_y (cur_track s1 ! i) = y'"
        using sn by (simp add: s1(2) old [OF le])
      then show ?thesis by blast
    qed
  qed
  then show ?thesis by (simp add: s1_def)
qed

lemma reachable_placed:
  assumes "reachable cfg move s"
  shows "placed cfg s"
  using assms
proof (induct rule: reachable.induct)
  case (start track s)
  then show ?case by (rule placed_init)
next
  case (try_failed s)
  from placed_try_failed [OF try_failed(2)] show ?case .
next
  case (backtrack s track1 board1 k1)
  from placed_BackTrace [OF backtrack(2,3)] show ?case .
next
  case (accept s r track1 board1 k1)
  from placed_AcceptMove [OF accept(2) accept(4,5,6)] show ?case .
qed

lemma placed_values:
  assumes p: "placed cfg s"
  shows "{board_get (cur_board s) x y | x y.
            in_range x (LX cfg) \<and> in_range y (LY cfg) \<and> board_get (cur_board s) x y \<noteq> 0}
         = {1 .. cur_step s + 1}"
proof (intro equalityI subsetI)
  fix v
  assume "v \<in> {board_get (cur_board s) x y | x y.
            in_range x (LX cfg) \<and> in_range y (LY cfg) \<and> board_get (cur_board s) x y \<noteq> 0}"
  then obtain x y where v: "v = board_get (cur_board s) x y"
    and r: "in_range x (LX cfg)" "in_range y (LY cfg)" and nz: "board_get (cur_board s) x y \<noteq> 0"
    by blast
  from placed_mark [OF p r nz] obtain i where
    i: "i \<le> nat (cur_step s)" "pos_x (cur_track s ! i) = x" "pos_y (cur_track s ! i) = y"
    by blast
  from placed_cell(3) [OF p i(1)] i(2,3) v have "v = int i + 1" by simp
  moreover from i(1) in_range_nonneg [OF placed_step [OF p]] have "int i \<le> cur_step s" by simp
  ultimately show "v \<in> {1 .. cur_step s + 1}" by simp
next
  fix v
  assume "v \<in> {1 .. cur_step s + 1}"
  then have v: "1 \<le> v" "v \<le> cur_step s + 1" by simp_all
  define i where "i = nat (v - 1)"
  from v have i: "i \<le> nat (cur_step s)" and vi: "v = int i + 1"
    by (simp_all add: i_def)
  note c = placed_cell [OF p i]
  from c(3) vi have "v = board_get (cur_board s) (pos_x (cur_track s ! i)) (pos_y (cur_track s ! i))"
    by simp
  moreover from c(3) have "board_get (cur_board s) (pos_x (cur_track s ! i)) (pos_y (cur_track s ! i)) \<noteq> 0"
    by simp
  ultimately show "v \<in> {board_get (cur_board s) x y | x y.
            in_range x (LX cfg) \<and> in_range y (LY cfg) \<and> board_get (cur_board s) x y \<noteq> 0}"
    using c(1,2) by blast
qed

lemma placed_distinct:
  assumes p: "placed cfg s"
    and r: "in_range x (LX cfg)" "in_range y (LY cfg)" and r': "in_range x' (LX cfg)" "in_range y' (LY cfg)"
    and nz: "board_get (cur_board s) x y \<noteq> 0"
    and eq: "board_get (cur_board s) x y = board_get (cur_board s) x' y'"
  shows "x = x' \<and> y = y'"
proof -
  from placed_mark [OF p r nz] obtain i where
    i: "i \<le> nat (cur_step s)" "pos_x (cur_track s ! i) = x" "pos_y (cur_track s ! i) = y"
    by blast
  from nz eq have "board_get (cur_board s) x' y' \<noteq> 0" by simp
  from placed_mark [OF p r' this] obtain j where
    j: "j \<le> nat (cur_step s)" "pos_x (cur_track s ! j) = x'" "pos_y (cur_track s ! j) = y'"
    by blast
  from placed_cell(3) [OF p i(1)] placed_cell(3) [OF p j(1)] i(2,3) j(2,3) eq
  have "int i + 1 = int j + 1" by simp
  then have "i = j" by simp
  with i j show ?thesis by simp
qed
lemma placed_full:
  assumes p: "placed cfg s"
    and full: "cur_step s = int (LX cfg * LY cfg) - 1"
    and r: "in_range x (LX cfg)" "in_range y (LY cfg)"
  shows "board_get (cur_board s) x y \<noteq> 0"
proof -
  define N where "N = LX cfg * LY cfg"
  define f where "f i = (nat (pos_x (cur_track s ! i)), nat (pos_y (cur_track s ! i)))" for i
  from full have "cur_step s = int N - 1"
    unfolding N_def .
  with in_range_nonneg [OF placed_step [OF p]] have N: "nat (cur_step s) = N - 1" "0 < N"
    by linarith+
  have le: "i \<le> nat (cur_step s)" if "i < N" for i
    using that N by simp
  have inj: "inj_on f {..<N}"
  proof (rule inj_onI)
    fix i j
    assume "i \<in> {..<N}" "j \<in> {..<N}" and e: "f i = f j"
    then have i: "i \<le> nat (cur_step s)" and j: "j \<le> nat (cur_step s)"
      by (simp_all add: le)
    note ci = placed_cell [OF p i] and cj = placed_cell [OF p j]
    from e have "nat (pos_x (cur_track s ! i)) = nat (pos_x (cur_track s ! j))"
      and "nat (pos_y (cur_track s ! i)) = nat (pos_y (cur_track s ! j))"
      by (simp_all add: f_def)
    with in_range_nonneg [OF ci(1)] in_range_nonneg [OF ci(2)]
      in_range_nonneg [OF cj(1)] in_range_nonneg [OF cj(2)]
    have ex: "pos_x (cur_track s ! i) = pos_x (cur_track s ! j)"
      and ey: "pos_y (cur_track s ! i) = pos_y (cur_track s ! j)"
      by linarith+
    have "int i + 1 = board_get (cur_board s) (pos_x (cur_track s ! i)) (pos_y (cur_track s ! i))"
      using ci(3) by (rule sym)
    also have "\<dots> = board_get (cur_board s) (pos_x (cur_track s ! j)) (pos_y (cur_track s ! j))"
      by (simp only: ex ey)
    also have "\<dots> = int j + 1"
      by (rule cj(3))
    finally show "i = j" by simp
  qed
  have sub: "f ` {..<N} \<subseteq> {..<LX cfg} \<times> {..<LY cfg}"
  proof
    fix c
    assume "c \<in> f ` {..<N}"
    then obtain i where i: "i < N" and c: "c = f i" by auto
    note ci = placed_cell [OF p le [OF i]]
    from in_range_nat [OF ci(1)] in_range_nat [OF ci(2)] show "c \<in> {..<LX cfg} \<times> {..<LY cfg}"
      by (simp add: c f_def)
  qed
  have "card (f ` {..<N}) = N"
    using inj by (simp add: card_image)
  then have "card (f ` {..<N}) = card ({..<LX cfg} \<times> {..<LY cfg})"
    by (simp add: N_def)
  with sub have cover: "f ` {..<N} = {..<LX cfg} \<times> {..<LY cfg}"
    by (intro card_subset_eq finite_cartesian_product finite_lessThan)
  from in_range_nat [OF r(1)] in_range_nat [OF r(2)]
  have "(nat x, nat y) \<in> {..<LX cfg} \<times> {..<LY cfg}" by simp
  then have "(nat x, nat y) \<in> f ` {..<N}"
    unfolding cover .
  then obtain i where "i \<in> {..<N}" and e: "(nat x, nat y) = f i"
    by (rule imageE)
  then have i: "i < N" by simp
  note ci = placed_cell [OF p le [OF i]]
  from e have "nat (pos_x (cur_track s ! i)) = nat x" and "nat (pos_y (cur_track s ! i)) = nat y"
    by (simp_all add: f_def)
  with in_range_nonneg [OF ci(1)] in_range_nonneg [OF ci(2)]
    in_range_nonneg [OF r(1)] in_range_nonneg [OF r(2)]
  have "pos_x (cur_track s ! i) = x" and "pos_y (cur_track s ! i) = y"
    by linarith+
  with ci(3) have "board_get (cur_board s) x y = int i + 1" by simp
  then show ?thesis by simp
qed


text \<open>
  C1. In every state that the search of one attempt reaches from its start (board reset,
  start cell marked 1, pattern index 0) by failed \<open>TryMove\<close>s, \<open>AcceptMove\<close>s and \<open>BackTrace\<close>s:
  the values of the nonzero cells of the board are exactly 1, ..., \<open>step + 1\<close>; no two cells
  hold the same nonzero value; the cell in row \<open>i\<close> of the track holds \<open>i + 1\<close>, for every
  row up to \<open>step\<close>. When \<open>step = LX*LY - 1\<close>, no cell is 0 and the values of the cells are
  exactly 1, ..., \<open>LX*LY\<close>.
\<close>

theorem reachable_board_values:
  assumes "reachable cfg move s"
  shows "{board_get (cur_board s) x y | x y.
            in_range x (LX cfg) \<and> in_range y (LY cfg) \<and> board_get (cur_board s) x y \<noteq> 0}
           = {1 .. cur_step s + 1} \<and>
         (\<forall>x y x' y'.
            in_range x (LX cfg) \<and> in_range y (LY cfg) \<and>
            in_range x' (LX cfg) \<and> in_range y' (LY cfg) \<and>
            board_get (cur_board s) x y \<noteq> 0 \<and>
            board_get (cur_board s) x y = board_get (cur_board s) x' y' \<longrightarrow> x = x' \<and> y = y') \<and>
         (\<forall>i. i \<le> nat (cur_step s) \<longrightarrow>
            board_get (cur_board s) (pos_x (cur_track s ! i)) (pos_y (cur_track s ! i)) = int i + 1) \<and>
         (cur_step s = int (LX cfg * LY cfg) - 1 \<longrightarrow>
            (\<forall>x y. in_range x (LX cfg) \<and> in_range y (LY cfg) \<longrightarrow> board_get (cur_board s) x y \<noteq> 0) \<and>
            {board_get (cur_board s) x y | x y. in_range x (LX cfg) \<and> in_range y (LY cfg)}
              = {1 .. int (LX cfg * LY cfg)})"
proof -
  from assms have p: "placed cfg s" by (rule reachable_placed)
  have nonzero: "{board_get (cur_board s) x y | x y.
            in_range x (LX cfg) \<and> in_range y (LY cfg) \<and> board_get (cur_board s) x y \<noteq> 0}
           = {1 .. cur_step s + 1}"
    using p by (rule placed_values)
  have distinct: "\<forall>x y x' y'.
            in_range x (LX cfg) \<and> in_range y (LY cfg) \<and>
            in_range x' (LX cfg) \<and> in_range y' (LY cfg) \<and>
            board_get (cur_board s) x y \<noteq> 0 \<and>
            board_get (cur_board s) x y = board_get (cur_board s) x' y' \<longrightarrow> x = x' \<and> y = y'"
    using placed_distinct [OF p] by blast
  have order: "\<forall>i. i \<le> nat (cur_step s) \<longrightarrow>
            board_get (cur_board s) (pos_x (cur_track s ! i)) (pos_y (cur_track s ! i)) = int i + 1"
    using placed_cell(3) [OF p] by blast
  have full: "(\<forall>x y. in_range x (LX cfg) \<and> in_range y (LY cfg) \<longrightarrow> board_get (cur_board s) x y \<noteq> 0) \<and>
            {board_get (cur_board s) x y | x y. in_range x (LX cfg) \<and> in_range y (LY cfg)}
              = {1 .. int (LX cfg * LY cfg)}"
    if f: "cur_step s = int (LX cfg * LY cfg) - 1"
  proof -
    have all: "\<forall>x y. in_range x (LX cfg) \<and> in_range y (LY cfg) \<longrightarrow> board_get (cur_board s) x y \<noteq> 0"
      using placed_full [OF p f] by blast
    then have "{board_get (cur_board s) x y | x y. in_range x (LX cfg) \<and> in_range y (LY cfg)} =
        {board_get (cur_board s) x y | x y.
            in_range x (LX cfg) \<and> in_range y (LY cfg) \<and> board_get (cur_board s) x y \<noteq> 0}"
      by blast
    also have "\<dots> = {1 .. cur_step s + 1}"
      by (rule nonzero)
    also have "\<dots> = {1 .. int (LX cfg * LY cfg)}"
      by (simp add: f)
    finally show ?thesis using all by blast
  qed
  from nonzero distinct order full show ?thesis by blast
qed

section \<open>The search stays within these states\<close>

lemma cascade_reachable:
  "cascade cfg s = Inr s' \<Longrightarrow> reachable cfg move s \<Longrightarrow> reachable cfg move s'"
proof (induct cfg s rule: cascade.induct)
  case (1 cfg s)
  show ?case
  proof (cases "in_range (cur_k s) (length (cur_track s)) \<and>
      pattern (cur_track s ! nat (cur_k s)) = int MAX_MOVE_PATTERN")
    case False
    with 1(2) have "s' = s"
      by (auto simp: cascade.simps [of cfg s] split: if_splits)
    with 1(3) show ?thesis by simp
  next
    case True
    with 1(2) obtain track1 board1 k1 where
      b: "BackTrace cfg (cur_step s) (cur_track s) (cur_board s) = Inr (track1, board1, k1)"
      and c: "cascade cfg (s\<lparr>cur_step := cur_step s - 1, cur_track := track1,
                cur_board := board1, cur_k := k1\<rparr>) = Inr s'"
      by (auto simp: cascade.simps [of cfg s] split: sum.splits prod.splits)
    from reachable.backtrack [OF 1(3) b]
    have "reachable cfg move (s\<lparr>cur_step := cur_step s - 1, cur_track := track1,
                cur_board := board1, cur_k := k1\<rparr>)" .
    with 1(1) [of "(track1, board1, k1)" track1 "(board1, k1)" board1 k1] True b c
    show ?thesis by simp
  qed
qed

lemma try_loop_reachable:
  assumes "try_loop cfg move s = Some y"
  shows "reachable cfg move s \<longrightarrow>
         (case y of Inl e \<Rightarrow> True
          | Inr s1 \<Rightarrow> reachable cfg move s1 \<and> in_range (cur_k s1) (length (cur_track s1)) \<and>
              (\<exists>r. r \<noteq> 0 \<and>
                 TryMove cfg (cur_step s1) (pattern (cur_track s1 ! nat (cur_k s1)))
                   (cur_track s1) (cur_board s1) move = Inr r))"
proof (rule try_loop.raw_induct
    [where P = "\<lambda>cfg move s y. reachable cfg move s \<longrightarrow>
         (case y of Inl e \<Rightarrow> True
          | Inr s1 \<Rightarrow> reachable cfg move s1 \<and> in_range (cur_k s1) (length (cur_track s1)) \<and>
              (\<exists>r. r \<noteq> 0 \<and>
                 TryMove cfg (cur_step s1) (pattern (cur_track s1 ! nat (cur_k s1)))
                   (cur_track s1) (cur_board s1) move = Inr r))",
     OF _ assms])
  fix f cfg move s y
  assume IH: "\<And>cfg move s y. f cfg move s = Some y \<Longrightarrow>
      reachable cfg move s \<longrightarrow>
         (case y of Inl e \<Rightarrow> True
          | Inr s1 \<Rightarrow> reachable cfg move s1 \<and> in_range (cur_k s1) (length (cur_track s1)) \<and>
              (\<exists>r. r \<noteq> 0 \<and>
                 TryMove cfg (cur_step s1) (pattern (cur_track s1 ! nat (cur_k s1)))
                   (cur_track s1) (cur_board s1) move = Inr r))"
    and body: "(if \<not> in_range (cur_k s) (length (cur_track s)) then Some (Inl OutOfBounds)
      else
        case TryMove cfg (cur_step s) (pattern (cur_track s ! nat (cur_k s)))
               (cur_track s) (cur_board s) move of
          Inl e \<Rightarrow> Some (Inl e)
        | Inr r \<Rightarrow>
            if r \<noteq> 0 then Some (Inr s)
            else
              (case cascade cfg
                      (s\<lparr>num_try := num_try s + 1,
                         cur_track := (cur_track s)[nat (cur_k s) :=
                           (cur_track s ! nat (cur_k s))
                             \<lparr>pattern := pattern (cur_track s ! nat (cur_k s)) + 1\<rparr>]\<rparr>) of
                 Inl e \<Rightarrow> Some (Inl e)
               | Inr s1 \<Rightarrow> f cfg move s1)) = Some y"
  show "reachable cfg move s \<longrightarrow>
         (case y of Inl e \<Rightarrow> True
          | Inr s1 \<Rightarrow> reachable cfg move s1 \<and> in_range (cur_k s1) (length (cur_track s1)) \<and>
              (\<exists>r. r \<noteq> 0 \<and>
                 TryMove cfg (cur_step s1) (pattern (cur_track s1 ! nat (cur_k s1)))
                   (cur_track s1) (cur_board s1) move = Inr r))"
  proof
    assume rs: "reachable cfg move s"
    show "case y of Inl e \<Rightarrow> True
          | Inr s1 \<Rightarrow> reachable cfg move s1 \<and> in_range (cur_k s1) (length (cur_track s1)) \<and>
              (\<exists>r. r \<noteq> 0 \<and>
                 TryMove cfg (cur_step s1) (pattern (cur_track s1 ! nat (cur_k s1)))
                   (cur_track s1) (cur_board s1) move = Inr r)"
    proof (cases y)
      case (Inl e)
      then show ?thesis by simp
    next
      case (Inr s')
      from body Inr have k: "in_range (cur_k s) (length (cur_track s))"
        by (simp split: if_splits)
      from body Inr k obtain r where
        t: "TryMove cfg (cur_step s) (pattern (cur_track s ! nat (cur_k s)))
               (cur_track s) (cur_board s) move = Inr r"
        by (auto split: sum.splits)
      show ?thesis
      proof (cases "r = 0")
        case False
        with body k t Inr have "s' = s" by simp
        with rs k t False Inr show ?thesis by auto
      next
        case True
        let ?s = "s\<lparr>num_try := num_try s + 1,
                         cur_track := (cur_track s)[nat (cur_k s) :=
                           (cur_track s ! nat (cur_k s))
                             \<lparr>pattern := pattern (cur_track s ! nat (cur_k s)) + 1\<rparr>]\<rparr>"
        from body k t True Inr obtain s1 where
          c: "cascade cfg ?s = Inr s1" and r: "f cfg move s1 = Some (Inr s')"
          by (auto split: sum.splits)
        from t True have "TryMove cfg (cur_step s) (pattern (cur_track s ! nat (cur_k s)))
               (cur_track s) (cur_board s) move = Inr 0" by simp
        from reachable.try_failed [OF rs k this] have "reachable cfg move ?s" .
        with c have "reachable cfg move s1" by (rule cascade_reachable)
        with IH [OF r] Inr show ?thesis by simp
      qed
    qed
  qed
qed

lemma accept_step_reachable:
  assumes rs: "reachable cfg move s"
    and k: "in_range (cur_k s) (length (cur_track s))"
    and t: "TryMove cfg (cur_step s) (pattern (cur_track s ! nat (cur_k s)))
               (cur_track s) (cur_board s) move = Inr r" and r: "r \<noteq> 0"
    and a: "accept_step cfg thread_id move s sh = Inr (s2, sh2)"
  shows "reachable cfg move s2 \<and>
         (\<exists>events. sh2 = critical_sections cfg events sh \<and> list_all (full_board_event cfg move) events)"
proof -
  from a k obtain track1 board1 k1 where
    acc: "AcceptMove cfg (cur_step s + 1) (pattern (cur_track s ! nat (cur_k s)))
               (cur_track s) (cur_board s) move = Inr (track1, board1, k1)"
    by (auto simp: accept_step_def split: sum.splits prod.splits)
  define s1 where "s1 = s\<lparr>num_try := num_try s + 1, cur_step := cur_step s + 1,
                       cur_track := track1, cur_board := board1, cur_k := k1\<rparr>"
  define full where "full \<longleftrightarrow> cur_step s1 = int (LX cfg * LY cfg) - 1"
  from reachable.accept [OF rs k t r acc] have r1: "reachable cfg move s1"
    unfolding s1_def .
  have s1: "cur_track s1 = track1" "cur_board s1 = board1"
    by (simp_all add: s1_def)
  have unfold: "accept_step cfg thread_id move s sh =
      (if full then
         case BackTrace cfg (cur_step s1) track1 board1 of
           Inl e \<Rightarrow> Inl e
         | Inr (track2, board2, k2) \<Rightarrow>
             (case cascade cfg (s1\<lparr>cur_step := cur_step s1 - 1, cur_track := track2,
                                    cur_board := board2, cur_k := k2\<rparr>) of
                Inl e \<Rightarrow> Inl e
              | Inr s2 \<Rightarrow> Inr (s2, critical_section cfg thread_id track1 board1 sh))
       else Inr (s1, sh))"
    using k acc unfolding accept_step_def Let_def s1_def full_def by simp
  show ?thesis
  proof (cases full)
    case False
    with a unfold have "s2 = s1" and "sh2 = sh"
      by simp_all
    moreover have "sh = critical_sections cfg [] sh \<and> list_all (full_board_event cfg move) []"
      by simp
    ultimately show ?thesis using r1 by blast
  next
    case True
    with a unfold obtain track2 board2 k2 where
      b: "BackTrace cfg (cur_step s1) track1 board1 = Inr (track2, board2, k2)"
      and c: "cascade cfg (s1\<lparr>cur_step := cur_step s1 - 1, cur_track := track2,
                                   cur_board := board2, cur_k := k2\<rparr>) = Inr s2"
      and sh2: "sh2 = critical_section cfg thread_id track1 board1 sh"
      by (auto split: sum.splits prod.splits)
    from b have "BackTrace cfg (cur_step s1) (cur_track s1) (cur_board s1) = Inr (track2, board2, k2)"
      by (simp add: s1)
    from reachable.backtrack [OF r1 this]
    have "reachable cfg move (s1\<lparr>cur_step := cur_step s1 - 1, cur_track := track2,
                                   cur_board := board2, cur_k := k2\<rparr>)" .
    with c have r2: "reachable cfg move s2" by (rule cascade_reachable)
    from r1 True s1 have "full_board_event cfg move (thread_id, track1, board1)"
      unfolding full_board_event_def full_def by (intro exI [of _ s1]) simp
    then have "sh2 = critical_sections cfg [(thread_id, track1, board1)] sh \<and>
        list_all (full_board_event cfg move) [(thread_id, track1, board1)]"
      by (simp add: sh2)
    with r2 show ?thesis by blast
  qed
qed

lemma search_loop_reachable:
  assumes "search_loop cfg thread_id move s sh = Some y"
  shows "reachable cfg move s \<longrightarrow>
         (case y of Inl e \<Rightarrow> True
          | Inr (s1, sh1) \<Rightarrow> reachable cfg move s1 \<and>
              (\<exists>events. sh1 = critical_sections cfg events sh \<and>
                 list_all (full_board_event cfg move) events))"
proof (rule search_loop.raw_induct
    [where P = "\<lambda>cfg thread_id move s sh y. reachable cfg move s \<longrightarrow>
         (case y of Inl e \<Rightarrow> True
          | Inr (s1, sh1) \<Rightarrow> reachable cfg move s1 \<and>
              (\<exists>events. sh1 = critical_sections cfg events sh \<and>
                 list_all (full_board_event cfg move) events))",
     OF _ assms])
  fix f cfg thread_id move s sh y
  assume IH: "\<And>cfg thread_id move s sh y. f cfg thread_id move s sh = Some y \<Longrightarrow>
      reachable cfg move s \<longrightarrow>
         (case y of Inl e \<Rightarrow> True
          | Inr (s1, sh1) \<Rightarrow> reachable cfg move s1 \<and>
              (\<exists>events. sh1 = critical_sections cfg events sh \<and>
                 list_all (full_board_event cfg move) events))"
    and body: "(if \<not> as_double (num_try s) < as_double (MAX_TRY cfg) then Some (Inr (s, sh))
      else Option.bind (try_loop cfg move s)
            (\<lambda>r. case r of Inl e \<Rightarrow> Some (Inl e)
                 | Inr s1 \<Rightarrow>
                     case accept_step cfg thread_id move s1 sh of
                     Inl e \<Rightarrow> Some (Inl e)
                     | Inr (s2, sh2) \<Rightarrow> f cfg thread_id move s2 sh2)) = Some y"
  show "reachable cfg move s \<longrightarrow>
         (case y of Inl e \<Rightarrow> True
          | Inr (s1, sh1) \<Rightarrow> reachable cfg move s1 \<and>
              (\<exists>events. sh1 = critical_sections cfg events sh \<and>
                 list_all (full_board_event cfg move) events))"
  proof
    assume rs: "reachable cfg move s"
    show "case y of Inl e \<Rightarrow> True
          | Inr (s1, sh1) \<Rightarrow> reachable cfg move s1 \<and>
              (\<exists>events. sh1 = critical_sections cfg events sh \<and>
                 list_all (full_board_event cfg move) events)"
    proof (cases y)
      case (Inl e)
      then show ?thesis by simp
    next
      case (Inr res)
      obtain s1 sh1 where res: "res = (s1, sh1)" by (cases res)
      show ?thesis
      proof (cases "as_double (num_try s) < as_double (MAX_TRY cfg)")
        case False
        with body Inr res have "s1 = s" "sh1 = sh" by simp_all
        moreover have "sh = critical_sections cfg [] sh \<and> list_all (full_board_event cfg move) []"
          by simp
        ultimately have "reachable cfg move s1 \<and>
              (\<exists>events. sh1 = critical_sections cfg events sh \<and>
                 list_all (full_board_event cfg move) events)"
          using rs by blast
        then show ?thesis by (simp add: Inr res)
      next
        case True
        from body True Inr obtain sa s2 sh2 where
          tl: "try_loop cfg move s = Some (Inr sa)"
          and a: "accept_step cfg thread_id move sa sh = Inr (s2, sh2)"
          and rr: "f cfg thread_id move s2 sh2 = Some y"
          by (auto split: Option.bind_splits sum.splits prod.splits)
        from try_loop_reachable [OF tl] rs obtain r where
          ra: "reachable cfg move sa" and k: "in_range (cur_k sa) (length (cur_track sa))"
          and r: "r \<noteq> 0"
          and t: "TryMove cfg (cur_step sa) (pattern (cur_track sa ! nat (cur_k sa)))
                   (cur_track sa) (cur_board sa) move = Inr r"
          by auto
        from accept_step_reachable [OF ra k t r a] obtain events1 where
          r2: "reachable cfg move s2" and e1: "sh2 = critical_sections cfg events1 sh"
          and f1: "list_all (full_board_event cfg move) events1"
          by blast
        from IH [OF rr] r2 Inr res obtain events2 where
          r3: "reachable cfg move s1" and e2: "sh1 = critical_sections cfg events2 sh2"
          and f2: "list_all (full_board_event cfg move) events2"
          by auto
        from e1 e2 f1 f2 have "sh1 = critical_sections cfg (events1 @ events2) sh \<and>
            list_all (full_board_event cfg move) (events1 @ events2)"
          by (simp add: critical_sections_append)
        with r3 have "reachable cfg move s1 \<and>
              (\<exists>events. sh1 = critical_sections cfg events sh \<and>
                 list_all (full_board_event cfg move) events)"
          by blast
        then show ?thesis by (simp add: Inr res)
      qed
    qed
  qed
qed


lemma search_init_source:
  "search_init source_config ((map uninit_zero [0..<36])[0 := \<lparr>pos_x = 5, pos_y = 5, pattern = 0\<rparr>])
     = Inr source_start"
  by (simp add: search_init_def source_start_def source_config_def in_range_def uninit_zero_def upt_rec)

lemma search_init_open: "search_init open_config (map uninit_zero [0..<12]) = Inr open_start"
  by (simp add: search_init_def open_start_def open_config_def in_range_def uninit_zero_def upt_rec)

lemma open_run:
  "\<exists>s1 sh1. search_loop open_config 0 move_init open_start (shared_init []) = Some (Inr (s1, sh1)) \<and>
     num_found sh1 = 2"
  by (simp add: open_start_def open_config_def run_eval)

lemma open_full_board:
  "\<exists>s. reachable open_config move_init s \<and> cur_step s = int (LX open_config * LY open_config) - 1"
proof -
  from open_run obtain s1 sh1 where
    run: "search_loop open_config 0 move_init open_start (shared_init []) = Some (Inr (s1, sh1))"
    and two: "num_found sh1 = 2"
    by blast
  have "reachable open_config move_init open_start"
    using search_init_open by (rule reachable.start)
  with search_loop_reachable [OF run] obtain events where
    sh1: "sh1 = critical_sections open_config events (shared_init [])"
    and ev: "list_all (full_board_event open_config move_init) events"
    by auto
  from two critical_sections_counters [of open_config events "shared_init []"] sh1
  have "events \<noteq> []"
    by (auto simp: shared_init_def)
  then obtain e es where "events = e # es" by (cases events) auto
  with ev have "full_board_event open_config move_init e" by simp
  then show ?thesis
    unfolding full_board_event_def by blast
qed

theorem reachable_board_values_witness:
  "reachable source_config move_init source_start \<and>
   {board_get (cur_board source_start) x y | x y.
      in_range x (LX source_config) \<and> in_range y (LY source_config) \<and>
      board_get (cur_board source_start) x y \<noteq> 0} = {1 .. 1} \<and>
   (\<exists>s. reachable open_config move_init s \<and>
        cur_step s = int (LX open_config * LY open_config) - 1 \<and>
        {board_get (cur_board s) x y | x y. in_range x (LX open_config) \<and> in_range y (LY open_config)}
          = {1 .. 12})"
proof -
  have r: "reachable source_config move_init source_start"
    using search_init_source by (rule reachable.start)
  from reachable_board_values [OF r]
  have "{board_get (cur_board source_start) x y | x y.
      in_range x (LX source_config) \<and> in_range y (LY source_config) \<and>
      board_get (cur_board source_start) x y \<noteq> 0} = {1 .. cur_step source_start + 1}"
    by blast
  then have one: "{board_get (cur_board source_start) x y | x y.
      in_range x (LX source_config) \<and> in_range y (LY source_config) \<and>
      board_get (cur_board source_start) x y \<noteq> 0} = {1 .. 1}"
    by (simp add: source_start_def)
  from open_full_board obtain s where
    ro: "reachable open_config move_init s"
    and f: "cur_step s = int (LX open_config * LY open_config) - 1"
    by blast
  from reachable_board_values [OF ro] f
  have "{board_get (cur_board s) x y | x y. in_range x (LX open_config) \<and> in_range y (LY open_config)}
          = {1 .. int (LX open_config * LY open_config)}"
    by blast
  then have "{board_get (cur_board s) x y | x y. in_range x (LX open_config) \<and> in_range y (LY open_config)}
          = {1 .. 12}"
    by (simp add: open_config_def)
  with ro f have "\<exists>s. reachable open_config move_init s \<and>
        cur_step s = int (LX open_config * LY open_config) - 1 \<and>
        {board_get (cur_board s) x y | x y. in_range x (LX open_config) \<and> in_range y (LY open_config)}
          = {1 .. 12}"
    by blast
  with r one show ?thesis by blast
qed

section \<open>The check of the budget\<close>

lemma as_double_exact: "n < 2 ^ 53 \<Longrightarrow> as_double n = n"
  by (simp add: as_double_def)

lemma bitlen_bounds: "0 < n \<Longrightarrow> 2 ^ (bitlen n - 1) \<le> n \<and> n < 2 ^ bitlen n"
proof (induction n rule: bitlen.induct)
  case (1 n)
  show ?case
  proof (cases "n div 2 = 0")
    case True
    with 1(2) have "n = 1" by (auto simp: div_eq_0_iff)
    moreover have "bitlen (Suc 0) = 1"
      by (simp add: bitlen.simps [of "Suc 0"] bitlen.simps [of 0])
    ultimately show ?thesis
      by simp
  next
    case False
    with 1 have IH: "2 ^ (bitlen (n div 2) - 1) \<le> n div 2" "n div 2 < 2 ^ bitlen (n div 2)"
      by simp_all
    from False have pos: "0 < bitlen (n div 2)"
      by (simp add: bitlen.simps [of "n div 2"])
    have b: "bitlen n = bitlen (n div 2) + 1"
      using 1(2) by (simp add: bitlen.simps [of n])
    from pos have "(2::nat) ^ (bitlen n - 1) = 2 * 2 ^ (bitlen (n div 2) - 1)"
      unfolding b by (cases "bitlen (n div 2)") simp_all
    with IH(1) have lo: "2 ^ (bitlen n - 1) \<le> n" by linarith
    from IH(2) have "n < 2 * 2 ^ bitlen (n div 2)" by linarith
    then have "n < 2 ^ bitlen n" unfolding b by simp
    with lo show ?thesis by simp
  qed
qed

lemma round_down_ge:
  assumes "2 ^ k \<le> (n::nat)" and "2 ^ e \<le> n"
  shows "2 ^ k \<le> n div 2 ^ e * 2 ^ e"
proof (cases "e \<le> k")
  case True
  then have "(2::nat) ^ k = 2 ^ (k - e) * 2 ^ e"
    by (simp add: power_add [symmetric])
  with assms(1) have "2 ^ (k - e) * 2 ^ e \<le> n" by simp
  then have "2 ^ (k - e) \<le> n div 2 ^ e"
    by (simp add: less_eq_div_iff_mult_less_eq)
  then have "2 ^ (k - e) * 2 ^ e \<le> n div 2 ^ e * 2 ^ e"
    by (rule mult_le_mono1)
  with \<open>2 ^ k = 2 ^ (k - e) * 2 ^ e\<close> show ?thesis by simp
next
  case False
  then have "(2::nat) ^ k \<le> 2 ^ e" by simp
  moreover from assms(2) have "1 \<le> n div 2 ^ e"
    by (simp add: less_eq_div_iff_mult_less_eq)
  then have "1 * 2 ^ e \<le> n div 2 ^ e * 2 ^ e"
    by (rule mult_le_mono1)
  then have "2 ^ e \<le> n div 2 ^ e * 2 ^ e" by simp
  ultimately show ?thesis by (rule order_trans)
qed

lemma as_double_ge_power:
  assumes "2 ^ k \<le> n" and "k \<le> 1024"
  shows "2 ^ k \<le> as_double n"
proof (cases "n < 2 ^ 53")
  case True
  with assms(1) show ?thesis by (simp add: as_double_exact)
next
  case False
  define e where "e = bitlen n - 53"
  define q where "q = n div 2 ^ e"
  from False have pos: "0 < n" by (cases "n = 0") simp_all
  from bitlen_bounds [OF pos] have "(2::nat) ^ (bitlen n - 1) \<le> n" by simp
  moreover have "(2::nat) ^ e \<le> 2 ^ (bitlen n - 1)"
    unfolding e_def by (rule power_increasing) simp_all
  ultimately have "2 ^ e \<le> n" by (rule order_trans [rotated])
  with assms(1) have down: "2 ^ k \<le> q * 2 ^ e"
    unfolding q_def by (rule round_down_ge)
  then have up: "2 ^ k \<le> (q + 1) * 2 ^ e" by simp
  from assms(2) have "(2::nat) ^ k \<le> 2 ^ 1024"
    by (rule power_increasing) simp
  with down up False show ?thesis
    unfolding as_double_def Let_def e_def [symmetric] q_def [symmetric]
    by (simp del: power_numeral)
qed

lemma eight_power: "(8::nat) ^ n = 2 ^ (3 * n)"
proof -
  have "(8::nat) = 2 ^ 3" by simp
  then show ?thesis by (simp only: power_mult [symmetric])
qed

lemma pow_8_exact: "3 * n \<le> 1023 \<Longrightarrow> pow_8 n = 8 ^ n"
  by (simp add: pow_8_def MAX_MOVE_PATTERN_def)

lemma as_double_ge_pow_8:
  assumes "8 ^ n \<le> m"
  shows "pow_8 n \<le> as_double m"
proof (cases "3 * n \<le> 1023")
  case True
  from assms have "2 ^ (3 * n) \<le> m" by (simp only: eight_power)
  moreover from True have "3 * n \<le> 1024" by simp
  ultimately have "2 ^ (3 * n) \<le> as_double m" by (rule as_double_ge_power)
  with True show ?thesis by (simp only: pow_8_exact eight_power)
next
  case False
  then have "(2::nat) ^ 1024 \<le> 2 ^ (3 * n)"
    by (intro power_increasing) simp_all
  with assms have "2 ^ 1024 \<le> m" by (simp only: eight_power)
  then have "2 ^ 1024 \<le> as_double m" by (rule as_double_ge_power) simp
  with False show ?thesis by (simp add: pow_8_def del: power_numeral)
qed

lemma below_pow_8:
  assumes "m < 2 ^ 53" and "m < 8 ^ n"
  shows "as_double m < pow_8 n"
proof (cases "3 * n \<le> 1023")
  case True
  with assms show ?thesis by (simp add: as_double_exact pow_8_exact)
next
  case False
  have "(2::nat) ^ 53 < 2 ^ 1024"
    by (rule power_strict_increasing) simp_all
  with assms(1) have "m < 2 ^ 1024" by (rule less_trans)
  with assms(1) False show ?thesis
    by (simp add: as_double_exact pow_8_def del: power_numeral)
qed

lemma main_aborts:
  "as_double (MAX_TRY cfg) \<ge> pow_8 (LX cfg * LY cfg) \<Longrightarrow>
   main cfg rnd uninit file =
     Some (Inr \<lparr>out_console = config_error_message, out_file = file, out_return = 0\<rparr>)"
  by (simp add: main_def)

lemma main_proceeds:
  "as_double (MAX_TRY cfg) < pow_8 (LX cfg * LY cfg) \<Longrightarrow>
   main cfg rnd uninit file = run_search cfg rnd uninit file"
  by (simp add: main_def)

lemma run_search_opens_file:
  "run_search cfg rnd uninit file \<noteq>
     Some (Inr \<lparr>out_console = c, out_file = None, out_return = r\<rparr>)"
  by (auto simp: run_search_def split: Option.bind_splits sum.splits prod.splits)

text \<open>
  C3, as the code has it. The bound is \<open>8^N\<close> with \<open>N = LX * LY\<close>, as the comment on
  \<open>MAX_TRY\<close> says, and the comparison is one of doubles. With a budget of at least \<open>8^N\<close>,
  and more generally whenever the double nearest to the budget is at least what \<open>pow\<close>
  returns, \<open>main\<close> prints the one error message and returns: the file is not opened and no
  search starts. Whenever the double nearest to the budget is below what \<open>pow\<close> returns,
  \<open>main\<close> opens the file and runs the search, so that it does not end in the state of the
  error return; this is the case of every budget below \<open>8^N\<close> that is also below \<open>2^53\<close>.
\<close>

theorem main_budget_check:
  "(MAX_TRY cfg \<ge> 8 ^ (LX cfg * LY cfg) \<longrightarrow>
      main cfg rnd uninit file =
        Some (Inr \<lparr>out_console = config_error_message, out_file = file, out_return = 0\<rparr>)) \<and>
   (as_double (MAX_TRY cfg) \<ge> pow_8 (LX cfg * LY cfg) \<longrightarrow>
      main cfg rnd uninit file =
        Some (Inr \<lparr>out_console = config_error_message, out_file = file, out_return = 0\<rparr>)) \<and>
   (as_double (MAX_TRY cfg) < pow_8 (LX cfg * LY cfg) \<longrightarrow>
      main cfg rnd uninit file = run_search cfg rnd uninit file \<and>
      main cfg rnd uninit None \<noteq>
        Some (Inr \<lparr>out_console = config_error_message, out_file = None, out_return = 0\<rparr>)) \<and>
   (MAX_TRY cfg < 2 ^ 53 \<and> MAX_TRY cfg < 8 ^ (LX cfg * LY cfg) \<longrightarrow>
      main cfg rnd uninit file = run_search cfg rnd uninit file \<and>
      main cfg rnd uninit None \<noteq>
        Some (Inr \<lparr>out_console = config_error_message, out_file = None, out_return = 0\<rparr>))"
proof -
  have a: "main cfg rnd uninit file =
        Some (Inr \<lparr>out_console = config_error_message, out_file = file, out_return = 0\<rparr>)"
    if "MAX_TRY cfg \<ge> 8 ^ (LX cfg * LY cfg)"
    using as_double_ge_pow_8 [OF that] by (rule main_aborts)
  have b: "main cfg rnd uninit file =
        Some (Inr \<lparr>out_console = config_error_message, out_file = file, out_return = 0\<rparr>)"
    if "as_double (MAX_TRY cfg) \<ge> pow_8 (LX cfg * LY cfg)"
    using that by (rule main_aborts)
  have c: "main cfg rnd uninit file = run_search cfg rnd uninit file \<and>
      main cfg rnd uninit None \<noteq>
        Some (Inr \<lparr>out_console = config_error_message, out_file = None, out_return = 0\<rparr>)"
    if "as_double (MAX_TRY cfg) < pow_8 (LX cfg * LY cfg)"
    using main_proceeds [OF that, of rnd uninit "file"] main_proceeds [OF that, of rnd uninit None]
      run_search_opens_file [of cfg rnd uninit None]
    by simp
  have d: "main cfg rnd uninit file = run_search cfg rnd uninit file \<and>
      main cfg rnd uninit None \<noteq>
        Some (Inr \<lparr>out_console = config_error_message, out_file = None, out_return = 0\<rparr>)"
    if "MAX_TRY cfg < 2 ^ 53 \<and> MAX_TRY cfg < 8 ^ (LX cfg * LY cfg)"
  proof -
    from that have "as_double (MAX_TRY cfg) < pow_8 (LX cfg * LY cfg)"
      by (intro below_pow_8) simp_all
    then show ?thesis by (rule c)
  qed
  from a b c d show ?thesis by blast
qed

lemma as_double_rounding_config: "as_double (MAX_TRY rounding_config) = 2 ^ 54"
  by (simp add: rounding_config_def as_double_def Let_def bitlen.simps)

theorem main_budget_check_witness:
  "MAX_TRY (source_config\<lparr>MAX_TRY := 8 ^ 36\<rparr>) \<ge>
     8 ^ (LX (source_config\<lparr>MAX_TRY := 8 ^ 36\<rparr>) * LY (source_config\<lparr>MAX_TRY := 8 ^ 36\<rparr>)) \<and>
   main (source_config\<lparr>MAX_TRY := 8 ^ 36\<rparr>) rand_zero uninit_zero None =
     Some (Inr \<lparr>out_console = config_error_message, out_file = None, out_return = 0\<rparr>) \<and>
   MAX_TRY rounding_config < 8 ^ (LX rounding_config * LY rounding_config) \<and>
   as_double (MAX_TRY rounding_config) \<ge> pow_8 (LX rounding_config * LY rounding_config) \<and>
   main rounding_config rand_zero uninit_zero None =
     Some (Inr \<lparr>out_console = config_error_message, out_file = None, out_return = 0\<rparr>) \<and>
   as_double (MAX_TRY source_config) < pow_8 (LX source_config * LY source_config) \<and>
   MAX_TRY source_config < 2 ^ 53 \<and>
   MAX_TRY source_config < 8 ^ (LX source_config * LY source_config) \<and>
   main source_config rand_zero uninit_zero None = run_search source_config rand_zero uninit_zero None"
proof -
  have a: "MAX_TRY (source_config\<lparr>MAX_TRY := 8 ^ 36\<rparr>) \<ge>
     8 ^ (LX (source_config\<lparr>MAX_TRY := 8 ^ 36\<rparr>) * LY (source_config\<lparr>MAX_TRY := 8 ^ 36\<rparr>))"
    by (simp add: source_config_def)
  have b: "MAX_TRY rounding_config < 8 ^ (LX rounding_config * LY rounding_config)"
    by (simp add: rounding_config_def)
  have c: "as_double (MAX_TRY rounding_config) \<ge> pow_8 (LX rounding_config * LY rounding_config)"
    unfolding as_double_rounding_config
    by (simp add: rounding_config_def pow_8_def MAX_MOVE_PATTERN_def)
  have d: "MAX_TRY source_config < 2 ^ 53"
    and e: "MAX_TRY source_config < 8 ^ (LX source_config * LY source_config)"
    by (simp_all add: source_config_def)
  have f: "as_double (MAX_TRY source_config) < pow_8 (LX source_config * LY source_config)"
    by (simp add: source_config_def as_double_def pow_8_def MAX_MOVE_PATTERN_def)
  from a b c d e f
    main_budget_check [of "source_config\<lparr>MAX_TRY := 8 ^ 36\<rparr>" rand_zero uninit_zero None]
    main_budget_check [of rounding_config rand_zero uninit_zero None]
    main_budget_check [of source_config rand_zero uninit_zero None]
  show ?thesis by blast
qed

text \<open>
  C3, as the specification states it, fails: on the board of the source, \<open>N = 36\<close>, the
  budget \<open>8^35\<close> is not below \<open>8^(N-1)\<close>, and \<open>main\<close> does not take the error return.
\<close>

theorem main_budget_8_pow_35_proceeds:
  "MAX_TRY budget_config \<ge> 8 ^ (LX budget_config * LY budget_config - 1) \<and>
   main budget_config rand_zero uninit_zero None \<noteq>
     Some (Inr \<lparr>out_console = config_error_message, out_file = None, out_return = 0\<rparr>)"
proof -
  have "as_double (MAX_TRY budget_config) = 8 ^ 35"
    by (simp add: budget_config_def as_double_def Let_def bitlen.simps)
  then have "as_double (MAX_TRY budget_config) < pow_8 (LX budget_config * LY budget_config)"
    by (simp add: budget_config_def source_config_def pow_8_def MAX_MOVE_PATTERN_def)
  then have "main budget_config rand_zero uninit_zero None =
      run_search budget_config rand_zero uninit_zero None"
    by (rule main_proceeds)
  moreover have "MAX_TRY budget_config \<ge> 8 ^ (LX budget_config * LY budget_config - 1)"
    by (simp add: budget_config_def source_config_def)
  ultimately show ?thesis
    by (simp add: run_search_opens_file)
qed

section \<open>The end of an attempt\<close>

lemma cascade_at_start_cell:
  assumes "cur_step s = 0"
    and "in_range (cur_k s) (length (cur_track s))"
    and "pattern (cur_track s ! nat (cur_k s)) = int MAX_MOVE_PATTERN"
  shows "cascade cfg s = Inl OutOfBounds"
  using assms by (simp add: cascade.simps BackTrace_def in_range_def)

text \<open>
  C2. The code has one way out of the search, the test \<open>num_try<MAX_TRY\<close> at the head
  of the outer loop (\<open>search_loop_result\<close>): nothing tests \<open>step\<close>. When all eight patterns
  of the start cell have failed, \<open>BackTrace\<close> is called with \<open>step = 0\<close> and goes to row
  \<open>-1\<close> of the track (\<open>cascade_at_start_cell\<close>). On the 2 by 4 board searched from the
  corner, with a budget of 1000 that the check of \<open>main\<close> accepts, this happens before
  the budget is used up: the attempt does not stop, it leaves the track.
\<close>

theorem exhausted_search_leaves_track:
  "MAX_TRY small_config < 8 ^ (LX small_config * LY small_config) \<and>
   main small_config rand_zero uninit_zero None = Some (Inl OutOfBounds)"
  by (simp add: small_config_def run_eval)

section \<open>IsClosedTour\<close>

text \<open>
  C6. \<open>IsClosedTour\<close> is true exactly when the absolute displacement between the two
  cells is (1, 2) or (2, 1); it gives the same answer when the two cells are swapped. It
  is a function of its four coordinates alone.
\<close>

theorem IsClosedTour_iff_symmetric:
  "(IsClosedTour x y a b \<noteq> 0 \<longleftrightarrow> (\<bar>x - a\<bar>, \<bar>y - b\<bar>) \<in> {(1, 2), (2, 1)}) \<and>
   IsClosedTour x y a b = IsClosedTour a b x y"
  by (simp add: IsClosedTour_def abs_minus_commute)

end
